theory Spec2Isabelle
  imports Complex_Main "HOL-Library.Signed_Division"
begin

section \<open>The sliding puzzle of \<open>src/components/SlidingPuzzle.tsx\<close>\<close>

text \<open>
  The component keeps a flattened board (\<open>tiles\<close>, 0 is the empty cell) and a few
  counters in one \<open>GameState\<close> value. A JavaScript \<open>number\<close> that holds an index, a
  size, a tile or a millisecond timestamp is modelled as an unbounded \<open>int\<close>, an
  array as a list. Not represented: the limits of doubles and of array lengths, and
  \<open>Infinity\<close>/\<open>NaN\<close> (the source divides by \<open>size\<close>, and \<open>createSolved\<close> throws on
  size 0 before any game state exists).

  An array access outside \<open>0 .. length - 1\<close> does not throw in JavaScript: a read
  yields \<open>undefined\<close> and a write grows the array or sets a property. The model stops
  there with \<open>OutOfRange\<close>; \<open>RangeError\<close> is the exception \<open>Array(-1)\<close> throws.
\<close>

datatype fault = RangeError | OutOfRange

record GameState =
  tiles :: "int list"
  size_f :: int
  moves :: int
  startedAt :: "int option"
  finishedAt :: "int option"

subsection \<open>Array primitives\<close>

text \<open>\<open>xs[i]\<close> as a read: \<open>None\<close> stands for \<open>undefined\<close>.\<close>

definition get_at :: "'a list \<Rightarrow> int \<Rightarrow> 'a option" where
  "get_at xs i = (if 0 \<le> i \<and> i < int (length xs) then Some (xs ! nat i) else None)"

text \<open>
  The destructuring assignment \<open>[xs[a], xs[b]] = [xs[b], xs[a]]\<close>: both reads first,
  then the write to \<open>xs[a]\<close>, then the write to \<open>xs[b]\<close>.
\<close>

definition swap :: "int list \<Rightarrow> int \<Rightarrow> int \<Rightarrow> fault + int list" where
  "swap xs a b =
     (case (get_at xs b, get_at xs a) of
        (Some vb, Some va) \<Rightarrow> Inr ((xs[nat a := vb])[nat b := va])
      | _ \<Rightarrow> Inl OutOfRange)"

text \<open>\<open>xs.indexOf(v)\<close>: the first position holding \<open>v\<close>, or \<open>-1\<close>.\<close>

fun indexOf :: "int list \<Rightarrow> int \<Rightarrow> int" where
  "indexOf [] v = - 1"
| "indexOf (x # xs) v =
     (if x = v then 0 else (let k = indexOf xs v in if k < 0 then - 1 else k + 1))"

subsection \<open>Board model\<close>

text \<open>
  \<open>[...Array(total - 1).keys()].map((n) => n + 1).concat(0)\<close>: the keys are
  \<open>0 .. total - 2\<close>; \<open>Array\<close> throws on a negative length.
\<close>

definition createSolved :: "int \<Rightarrow> fault + int list" where
  "createSolved sz =
     (let total = sz * sz in
      if total - 1 < 0 then Inl RangeError
      else Inr (map (\<lambda>n. n + 1) [0..total - 2] @ [0]))"

text \<open>
  \<open>Math.floor(index / size)\<close> rounds down, as \<open>div\<close> on \<open>int\<close> does; \<open>%\<close> takes the
  sign of the dividend, as \<open>smod\<close> does.
\<close>

definition indexToRC :: "int \<Rightarrow> int \<Rightarrow> int \<times> int" where
  "indexToRC index sz = (index div sz, index smod sz)"

definition rcToIndex :: "int \<Rightarrow> int \<Rightarrow> int \<Rightarrow> int" where
  "rcToIndex r c sz = r * sz + c"

definition neighborsOf :: "int \<Rightarrow> int \<Rightarrow> int list" where
  "neighborsOf emptyIndex sz =
     (let (r, c) = indexToRC emptyIndex sz in
        (if r > 0 then [rcToIndex (r - 1) c sz] else [])
      @ (if r < sz - 1 then [rcToIndex (r + 1) c sz] else [])
      @ (if c > 0 then [rcToIndex r (c - 1) sz] else [])
      @ (if c < sz - 1 then [rcToIndex r (c + 1) sz] else []))"

text \<open>
  The loop of \<open>isSolved\<close>, from counter \<open>i\<close> on: it returns false at the first tile
  out of place and otherwise compares the last cell with 0 (on the empty array
  that read is \<open>tiles[-1]\<close>, which is \<open>undefined\<close>).
\<close>

function isSolved_loop :: "int list \<Rightarrow> nat \<Rightarrow> bool" where
  "isSolved_loop ts i =
     (if int i < int (length ts) - 1
      then (if ts ! i \<noteq> int i + 1 then False else isSolved_loop ts (i + 1))
      else get_at ts (int (length ts) - 1) = Some 0)"
  by pat_completeness auto
termination
  by (relation "measure (\<lambda>(ts, i). length ts - i)") auto

declare isSolved_loop.simps [simp del]

definition isSolved :: "int list \<Rightarrow> bool" where
  "isSolved ts = isSolved_loop ts 0"

subsection \<open>Shuffle\<close>

text \<open>
  One iteration of the random walk, on the pair of the array and the variable
  \<open>empty\<close> (here \<open>emp\<close>); \<open>u\<close> is the value \<open>Math.random()\<close> returns, taken as a real
  number and multiplied exactly. (The rounded product of doubles can differ from
  the exact one in the last bit; like the exact one it is below the length. The
  proofs below use of the picked position only that it is an index of \<open>adj\<close>.)
\<close>

definition shuffle_step :: "int \<Rightarrow> real \<Rightarrow> int list \<times> int \<Rightarrow> fault + (int list \<times> int)" where
  "shuffle_step sz u st =
     (let (ts, emp) = st;
          adj = neighborsOf emp sz
      in case get_at adj \<lfloor>u * real (length adj)\<rfloor> of
           None \<Rightarrow> Inl OutOfRange
         | Some choice \<Rightarrow>
             (case swap ts choice emp of
                Inl e \<Rightarrow> Inl e
              | Inr ts' \<Rightarrow> Inr (ts', choice)))"

text \<open>
  \<open>for (let i = 0; i < steps; i++)\<close>, from counter \<open>i\<close> on; \<open>rnd i\<close> is the value of
  the call of \<open>Math.random()\<close> in iteration \<open>i\<close>.
\<close>

function shuffle_loop ::
  "int \<Rightarrow> (nat \<Rightarrow> real) \<Rightarrow> nat \<Rightarrow> nat \<Rightarrow> int list \<times> int \<Rightarrow> fault + (int list \<times> int)" where
  "shuffle_loop sz rnd steps i st =
     (if i < steps
      then (case shuffle_step sz (rnd i) st of
              Inl e \<Rightarrow> Inl e
            | Inr st' \<Rightarrow> shuffle_loop sz rnd steps (i + 1) st')
      else Inr st)"
  by pat_completeness auto
termination
  by (relation "measure (\<lambda>(sz, rnd, steps, i, st). steps - i)") auto

declare shuffle_loop.simps [simp del]

definition shuffleSolvable :: "int \<Rightarrow> nat \<Rightarrow> (nat \<Rightarrow> real) \<Rightarrow> fault + int list" where
  "shuffleSolvable sz steps rnd =
     (case createSolved sz of
        Inl e \<Rightarrow> Inl e
      | Inr tiles0 \<Rightarrow>
          (case shuffle_loop sz rnd steps 0 (tiles0, indexOf tiles0 0) of
             Inl e \<Rightarrow> Inl e
           | Inr (ts, emp) \<Rightarrow>
               if isSolved ts
               then (case get_at (neighborsOf emp sz) 0 of
                       None \<Rightarrow> Inl OutOfRange
                     | Some choice \<Rightarrow> swap ts choice emp)
               else Inr ts))"

subsection \<open>Interaction controller\<close>

text \<open>
  \<open>if (game.finishedAt)\<close> and \<open>!game.startedAt\<close> test truthiness: \<open>undefined\<close> and
  the number 0 are both falsy. \<open>??\<close> only replaces \<open>undefined\<close>.
\<close>

definition truthy :: "int option \<Rightarrow> bool" where
  "truthy t = (case t of None \<Rightarrow> False | Some v \<Rightarrow> v \<noteq> 0)"

definition nullish :: "int option \<Rightarrow> int \<Rightarrow> int" where
  "nullish t d = (case t of None \<Rightarrow> d | Some v \<Rightarrow> v)"

text \<open>
  The callback handed to \<open>useMemo\<close> for \<open>seconds\<close>, on the state \<open>game\<close> of the
  render that creates it and with \<open>now\<close> the value of \<open>Date.now()\<close>.
\<close>

definition seconds_callback :: "GameState \<Rightarrow> int \<Rightarrow> int" where
  "seconds_callback game now =
     (if \<not> truthy (startedAt game) then 0
      else (let end = nullish (finishedAt game) now
            in (end - the (startedAt game)) div 1000))"

text \<open>
  \<open>useMemo(callback, [])\<close>: the hook keeps a cell, empty before the first render.
  With an empty dependency list nothing ever invalidates the cell: the first
  render calls the callback and stores its value, every later render returns the
  stored value and does not call the callback.
\<close>

definition useMemo_no_deps :: "'a option \<Rightarrow> (unit \<Rightarrow> 'a) \<Rightarrow> 'a \<times> 'a option" where
  "useMemo_no_deps cell callback =
     (case cell of
        None \<Rightarrow> (let v = callback () in (v, Some v))
      | Some v \<Rightarrow> (v, Some v))"

text \<open>
  The constant \<open>seconds\<close> of one render: the render has the state \<open>game\<close>, the clock
  reads \<open>now\<close>, and \<open>cell\<close> is the cell of the hook; the result is the value of
  \<open>seconds\<close> in this render and the cell afterwards.
\<close>

definition seconds :: "int option \<Rightarrow> GameState \<Rightarrow> int \<Rightarrow> int \<times> int option" where
  "seconds cell game now = useMemo_no_deps cell (\<lambda>_. seconds_callback game now)"

text \<open>
  The values of \<open>seconds\<close> over a sequence of renders, each with its state and its
  clock reading, the cell passed from one render to the next.
\<close>

fun renders :: "int option \<Rightarrow> (GameState \<times> int) list \<Rightarrow> int list" where
  "renders cell [] = []"
| "renders cell ((game, now) # rs) =
     (case seconds cell game now of (v, cell') \<Rightarrow> v # renders cell' rs)"

text \<open>
  \<open>onTileClick\<close>: \<open>now1\<close> and \<open>now2\<close> are the values of the two calls of
  \<open>Date.now()\<close> (for \<open>startedAt\<close> and for \<open>finishedAt\<close>). The state the updater of
  \<open>setGame\<close> receives is the state of the render the handler closes over.
\<close>

definition onTileClick :: "GameState \<Rightarrow> int \<Rightarrow> int \<Rightarrow> int \<Rightarrow> fault + GameState" where
  "onTileClick game index now1 now2 =
     (if truthy (finishedAt game) then Inr game
      else
        let emp = indexOf (tiles game) 0;
            adj = neighborsOf emp (size_f game)
        in if index \<notin> set adj then Inr game
           else (case swap (tiles game) index emp of
                   Inl e \<Rightarrow> Inl e
                 | Inr next \<Rightarrow>
                     Inr (game\<lparr>tiles := next,
                               moves := moves game + 1,
                               startedAt := Some (nullish (startedAt game) now1),
                               finishedAt := (if isSolved next then Some now2 else None)\<rparr>)))"

text \<open>
  The state of a new game: the initial state of \<open>useState\<close>, the effect on
  \<open>gridSize\<close> and \<open>onShuffle\<close> all build it, with the default 300 steps.
\<close>

definition newGame :: "int \<Rightarrow> (nat \<Rightarrow> real) \<Rightarrow> fault + GameState" where
  "newGame sz rnd =
     (case shuffleSolvable sz 300 rnd of
        Inl e \<Rightarrow> Inl e
      | Inr ts \<Rightarrow> Inr \<lparr>tiles = ts, size_f = sz, moves = 0, startedAt = None, finishedAt = None\<rparr>)"

definition onShuffle :: "GameState \<Rightarrow> (nat \<Rightarrow> real) \<Rightarrow> fault + GameState" where
  "onShuffle game rnd = newGame (size_f game) rnd"

subsection \<open>Notions of the specification\<close>

text \<open>
  Orthogonal adjacency as the specification words it, with its coordinates
  \<open>r = i div size\<close> and \<open>c = i mod size\<close>: \<open>k\<close> is a cell of the board in the same
  row as \<open>i\<close> and one column away, or in the same column and one row away.
\<close>

definition spec_adjacent :: "int \<Rightarrow> int \<Rightarrow> int \<Rightarrow> bool" where
  "spec_adjacent sz i k =
     (0 \<le> k \<and> k < sz * sz \<and>
      ((k div sz = i div sz \<and> \<bar>k mod sz - i mod sz\<bar> = 1) \<or>
       (k mod sz = i mod sz \<and> \<bar>k div sz - i div sz\<bar> = 1)))"

text \<open>
  The board of the data model: \<open>size * size\<close> cells holding each of
  \<open>0 .. size * size - 1\<close> once.
\<close>

definition valid_board :: "int \<Rightarrow> int list \<Rightarrow> bool" where
  "valid_board sz ts =
     (length ts = nat (sz * sz) \<and> distinct ts \<and> set ts = {0..sz * sz - 1})"

text \<open>
  A legal move as the glossary words it: the empty cell, at \<open>e\<close>, is swapped with
  the tile in an orthogonally adjacent cell \<open>k\<close>.
\<close>

definition spec_legal_move :: "int \<Rightarrow> int list \<Rightarrow> int list \<Rightarrow> bool" where
  "spec_legal_move sz ts ts' =
     (\<exists>e \<in> set [0..int (length ts) - 1]. \<exists>k \<in> set [0..int (length ts) - 1].
        get_at ts e = Some 0 \<and> spec_adjacent sz e k \<and> swap ts k e = Inr ts')"

text \<open>
  What the loop of \<open>shuffleSolvable\<close> keeps true of the array and the variable
  \<open>empty\<close>: the array is a board, \<open>empty\<close> is the position of 0, and the board is
  reached from \<open>t0\<close> by legal moves.
\<close>

definition walk_inv :: "int \<Rightarrow> int list \<Rightarrow> int list \<times> int \<Rightarrow> bool" where
  "walk_inv sz t0 st =
     (case st of (ts, e) \<Rightarrow>
        valid_board sz ts \<and> 0 \<le> e \<and> e < sz * sz \<and> ts ! nat e = 0
        \<and> rtranclp (spec_legal_move sz) t0 ts)"

definition unit_interval :: "(nat \<Rightarrow> real) \<Rightarrow> bool" where
  "unit_interval rnd = (\<forall>i. 0 \<le> rnd i \<and> rnd i < 1)"

text \<open>
  The events the component reacts to: a click on the tile at an index (with the
  two values of \<open>Date.now()\<close>), the shuffle button, and a change of \<open>gridSize\<close>,
  which runs the effect that starts a new game (each with the values of
  \<open>Math.random()\<close>).
\<close>

datatype action =
    TileClick int int int
  | Shuffle "nat \<Rightarrow> real"
  | Resize int "nat \<Rightarrow> real"

fun step :: "GameState \<Rightarrow> action \<Rightarrow> fault + GameState" where
  "step game (TileClick index now1 now2) = onTileClick game index now1 now2"
| "step game (Shuffle rnd) = onShuffle game rnd"
| "step game (Resize sz rnd) = newGame sz rnd"

text \<open>
  What the environment provides: \<open>Math.random()\<close> returns values in \<open>[0, 1)\<close>, and a
  grid size is at least 2.
\<close>

fun admissible :: "action \<Rightarrow> bool" where
  "admissible (TileClick index now1 now2) = True"
| "admissible (Shuffle rnd) = unit_interval rnd"
| "admissible (Resize sz rnd) = (2 \<le> sz \<and> unit_interval rnd)"

inductive reachable :: "GameState \<Rightarrow> bool" where
  mount: "2 \<le> sz \<Longrightarrow> unit_interval rnd \<Longrightarrow> newGame sz rnd = Inr g \<Longrightarrow> reachable g"
| step: "reachable g \<Longrightarrow> admissible a \<Longrightarrow> step g a = Inr g' \<Longrightarrow> reachable g'"

definition state_inv :: "GameState \<Rightarrow> bool" where
  "state_inv g =
     (2 \<le> size_f g \<and> valid_board (size_f g) (tiles g)
      \<and> (finishedAt g \<noteq> None \<longleftrightarrow> isSolved (tiles g)))"

text \<open>
  The states reached when no call of \<open>Date.now()\<close> returns 0, that is, when the
  clock does not read the first millisecond of 1970.
\<close>

fun clock_nonzero :: "action \<Rightarrow> bool" where
  "clock_nonzero (TileClick index now1 now2) = (now1 \<noteq> 0 \<and> now2 \<noteq> 0)"
| "clock_nonzero (Shuffle rnd) = True"
| "clock_nonzero (Resize sz rnd) = True"

inductive running :: "GameState \<Rightarrow> bool" where
  mount: "2 \<le> sz \<Longrightarrow> unit_interval rnd \<Longrightarrow> newGame sz rnd = Inr g \<Longrightarrow> running g"
| step: "running g \<Longrightarrow> admissible a \<Longrightarrow> clock_nonzero a \<Longrightarrow> step g a = Inr g'
           \<Longrightarrow> running g'"

section \<open>Coordinates\<close>

lemma smod_nonneg: "0 \<le> a \<Longrightarrow> 0 < b \<Longrightarrow> (a::int) smod b = a mod b"
  by (simp add: signed_modulo_int_def sgn_if)

lemma div_lt_size:
  assumes "0 < sz" "e < sz * sz"
  shows "(e::int) div sz < sz"
proof (rule ccontr)
  assume "\<not> e div sz < sz"
  then have "sz \<le> e div sz" by simp
  then have "sz * sz \<le> sz * (e div sz)" using assms(1) by (intro mult_left_mono) auto
  moreover have "sz * (e div sz) + e mod sz = e" by simp
  moreover have "0 \<le> e mod sz" using assms(1) by simp
  ultimately show False using assms(2) by linarith
qed

lemma indexToRC_valid:
  assumes "0 < sz" "0 \<le> e"
  shows "indexToRC e sz = (e div sz, e mod sz)"
  using assms by (simp add: indexToRC_def smod_nonneg)

lemma rc_bounds:
  assumes "0 < sz" "0 \<le> e" "e < sz * (sz::int)"
  shows "0 \<le> e div sz" "e div sz < sz" "0 \<le> e mod sz" "e mod sz < sz"
proof -
  show "0 \<le> e div sz" using assms by (simp add: pos_imp_zdiv_nonneg_iff)
  show "e div sz < sz" using assms by (rule_tac div_lt_size)
  show "0 \<le> e mod sz" using assms by simp
  show "e mod sz < sz" using assms by simp
qed

lemma cell_upper:
  assumes "r < sz" "c < sz" "0 \<le> c" "0 \<le> (r::int)"
  shows "r * sz + c < sz * sz"
proof -
  have "r + 1 \<le> sz" using assms by simp
  then have "(r + 1) * sz \<le> sz * sz" using assms by (intro mult_right_mono) auto
  then show ?thesis using assms by (simp add: algebra_simps)
qed

text \<open>
  C9. For a size of at least 1, \<open>indexToRC\<close> undoes \<open>rcToIndex\<close> on every row and
  column in \<open>[0, size)\<close>, and \<open>rcToIndex\<close> undoes \<open>indexToRC\<close> on every index in
  \<open>[0, size * size)\<close>, whose row and column lie in \<open>[0, size)\<close>: the two functions are
  inverse bijections between the valid cells and the valid indices.
\<close>

theorem rc_roundtrip:
  assumes "1 \<le> sz"
  shows "(0 \<le> r \<and> r < sz \<and> 0 \<le> c \<and> c < sz \<longrightarrow>
            indexToRC (rcToIndex r c sz) sz = (r, c))
       \<and> (0 \<le> i \<and> i < sz * sz \<longrightarrow>
            (case indexToRC i sz of (r', c') \<Rightarrow>
               rcToIndex r' c' sz = i \<and> 0 \<le> r' \<and> r' < sz \<and> 0 \<le> c' \<and> c' < sz))"
proof (intro conjI impI)
  assume h: "0 \<le> r \<and> r < sz \<and> 0 \<le> c \<and> c < sz"
  then have "0 \<le> rcToIndex r c sz" using assms by (simp add: rcToIndex_def)
  then show "indexToRC (rcToIndex r c sz) sz = (r, c)"
    using assms h by (simp add: indexToRC_valid) (simp add: rcToIndex_def)
next
  assume h: "0 \<le> i \<and> i < sz * sz"
  then show "case indexToRC i sz of (r', c') \<Rightarrow>
               rcToIndex r' c' sz = i \<and> 0 \<le> r' \<and> r' < sz \<and> 0 \<le> c' \<and> c' < sz"
    using assms by (simp add: indexToRC_valid rcToIndex_def rc_bounds)
qed

theorem rc_roundtrip_witness:
  "(1::int) \<le> 3 \<and> indexToRC (rcToIndex 2 1 3) 3 = (2, 1)
     \<and> (case indexToRC 7 3 of (r', c') \<Rightarrow> rcToIndex r' c' 3 = 7)"
  using rc_roundtrip [of 3 2 1 7] by (auto split: prod.splits)

section \<open>Neighbours\<close>

lemma cell_div_mod:
  assumes "0 \<le> c" "c < (sz::int)"
  shows "(r * sz + c) div sz = r" "(r * sz + c) mod sz = c"
  using assms by simp_all

lemma cell_lower:
  assumes "0 \<le> r" "0 \<le> c" "0 \<le> (sz::int)"
  shows "0 \<le> r * sz + c"
  using assms by simp

lemma neighborsOf_unfold:
  assumes "0 < sz" "0 \<le> e"
  shows "neighborsOf e sz =
        (if e div sz > 0 then [(e div sz - 1) * sz + e mod sz] else [])
      @ (if e div sz < sz - 1 then [(e div sz + 1) * sz + e mod sz] else [])
      @ (if e mod sz > 0 then [e div sz * sz + (e mod sz - 1)] else [])
      @ (if e mod sz < sz - 1 then [e div sz * sz + (e mod sz + 1)] else [])"
  using assms by (simp add: neighborsOf_def indexToRC_valid rcToIndex_def)

lemma neighborsOf_in_range:
  assumes "0 < sz" "0 \<le> e" "e < sz * sz" "k \<in> set (neighborsOf e sz)"
  shows "0 \<le> k \<and> k < sz * sz"
proof -
  define r where "r = e div sz"
  define c where "c = e mod sz"
  have b: "0 \<le> r" "r < sz" "0 \<le> c" "c < sz"
    using rc_bounds [OF assms(1-3)] by (simp_all add: r_def c_def)
  from assms(4) consider
      "0 < r" "k = (r - 1) * sz + c"
    | "r < sz - 1" "k = (r + 1) * sz + c"
    | "0 < c" "k = r * sz + (c - 1)"
    | "c < sz - 1" "k = r * sz + (c + 1)"
    unfolding r_def c_def
    by (auto simp: neighborsOf_unfold [OF assms(1,2)] split: if_splits)
  then show ?thesis
  proof cases
    case 1
    have "0 \<le> (r - 1) * sz + c" using 1 b by (intro cell_lower) linarith+
    moreover have "(r - 1) * sz + c < sz * sz" using 1 b by (intro cell_upper) linarith+
    ultimately show ?thesis using 1 by simp
  next
    case 2
    have "0 \<le> (r + 1) * sz + c" using 2 b by (intro cell_lower) linarith+
    moreover have "(r + 1) * sz + c < sz * sz" using 2 b by (intro cell_upper) linarith+
    ultimately show ?thesis using 2 by simp
  next
    case 3
    have "0 \<le> r * sz + (c - 1)" using 3 b by (intro cell_lower) linarith+
    moreover have "r * sz + (c - 1) < sz * sz" using 3 b by (intro cell_upper) linarith+
    ultimately show ?thesis using 3 by simp
  next
    case 4
    have "0 \<le> r * sz + (c + 1)" using 4 b by (intro cell_lower) linarith+
    moreover have "r * sz + (c + 1) < sz * sz" using 4 b by (intro cell_upper) linarith+
    ultimately show ?thesis using 4 by simp
  qed
qed

lemma neighborsOf_not_self:
  assumes "0 < sz" "0 \<le> e"
  shows "e \<notin> set (neighborsOf e sz)"
proof
  assume "e \<in> set (neighborsOf e sz)"
  moreover have "e = e div sz * sz + e mod sz" by simp
  ultimately have "e div sz * sz + e mod sz = (e div sz - 1) * sz + e mod sz
      \<or> e div sz * sz + e mod sz = (e div sz + 1) * sz + e mod sz
      \<or> e div sz * sz + e mod sz = e div sz * sz + (e mod sz - 1)
      \<or> e div sz * sz + e mod sz = e div sz * sz + (e mod sz + 1)"
    by (auto simp: neighborsOf_unfold [OF assms] split: if_splits)
  then show False using assms(1) by (auto simp: algebra_simps)
qed

lemma neighborsOf_length_ge2:
  assumes "2 \<le> sz" "0 \<le> e"
  shows "2 \<le> length (neighborsOf e sz)"
proof -
  have "0 < sz" using assms by simp
  then show ?thesis using assms
    by (simp add: neighborsOf_unfold)
qed

lemma neighborsOf_offsets:
  assumes "0 < sz" "0 \<le> e"
  shows "neighborsOf e sz =
        (if e div sz > 0 then [e - sz] else [])
      @ (if e div sz < sz - 1 then [e + sz] else [])
      @ (if e mod sz > 0 then [e - 1] else [])
      @ (if e mod sz < sz - 1 then [e + 1] else [])"
proof -
  have e: "e div sz * sz + e mod sz = e" by simp
  have "(e div sz - 1) * sz + e mod sz = e - sz"
       "(e div sz + 1) * sz + e mod sz = e + sz"
       "e div sz * sz + (e mod sz - 1) = e - 1"
       "e div sz * sz + (e mod sz + 1) = e + 1"
    using e by (simp_all add: algebra_simps)
  then show ?thesis by (simp add: neighborsOf_unfold [OF assms])
qed

lemma neighborsOf_distinct:
  assumes "2 \<le> sz" "0 \<le> e"
  shows "distinct (neighborsOf e sz)"
proof -
  have "0 < sz" using assms by simp
  then show ?thesis using assms by (simp add: neighborsOf_offsets)
qed

lemma neighborsOf_adjacent:
  assumes "0 < sz" "0 \<le> e" "e < sz * sz"
  shows "k \<in> set (neighborsOf e sz) \<longleftrightarrow> spec_adjacent sz e k"
proof
  assume k: "k \<in> set (neighborsOf e sz)"
  define r where "r = e div sz"
  define c where "c = e mod sz"
  have b: "0 \<le> r" "r < sz" "0 \<le> c" "c < sz"
    using rc_bounds [OF assms(1-3)] by (simp_all add: r_def c_def)
  have rng: "0 \<le> k \<and> k < sz * sz"
    using neighborsOf_in_range [OF assms k] .
  from k consider
      "0 < r" "k = (r - 1) * sz + c"
    | "r < sz - 1" "k = (r + 1) * sz + c"
    | "0 < c" "k = r * sz + (c - 1)"
    | "c < sz - 1" "k = r * sz + (c + 1)"
    unfolding r_def c_def
    by (auto simp: neighborsOf_unfold [OF assms(1,2)] split: if_splits)
  then have "(k div sz = r \<and> \<bar>k mod sz - c\<bar> = 1) \<or> (k mod sz = c \<and> \<bar>k div sz - r\<bar> = 1)"
  proof cases
    case 1
    then show ?thesis using cell_div_mod [OF b(3,4), of "r - 1"] by simp
  next
    case 2
    then show ?thesis using cell_div_mod [OF b(3,4), of "r + 1"] by simp
  next
    case 3
    have "0 \<le> c - 1" "c - 1 < sz" using 3 b by linarith+
    then show ?thesis using 3 cell_div_mod [of "c - 1" sz r] by simp
  next
    case 4
    have "0 \<le> c + 1" "c + 1 < sz" using 4 b by linarith+
    then show ?thesis using 4 cell_div_mod [of "c + 1" sz r] by simp
  qed
  then show "spec_adjacent sz e k"
    using rng by (simp add: spec_adjacent_def r_def c_def)
next
  assume a: "spec_adjacent sz e k"
  then have rng: "0 \<le> k" "k < sz * sz" by (simp_all add: spec_adjacent_def)
  define r where "r = e div sz"
  define c where "c = e mod sz"
  define rk where "rk = k div sz"
  define ck where "ck = k mod sz"
  have bk: "0 \<le> rk" "rk < sz" "0 \<le> ck" "ck < sz"
    using rc_bounds [OF assms(1) rng] by (simp_all add: rk_def ck_def)
  have k: "k = rk * sz + ck" by (simp add: rk_def ck_def)
  have "(rk = r \<and> \<bar>ck - c\<bar> = 1) \<or> (ck = c \<and> \<bar>rk - r\<bar> = 1)"
    using a by (simp add: spec_adjacent_def r_def c_def rk_def ck_def)
  then consider
      "rk = r" "ck = c + 1" | "rk = r" "ck = c - 1"
    | "ck = c" "rk = r + 1" | "ck = c" "rk = r - 1"
    by linarith
  then have "(0 < r \<and> k = (r - 1) * sz + c)
      \<or> (r < sz - 1 \<and> k = (r + 1) * sz + c)
      \<or> (0 < c \<and> k = r * sz + (c - 1))
      \<or> (c < sz - 1 \<and> k = r * sz + (c + 1))"
  proof cases
    case 1
    then have "c < sz - 1" using bk by linarith
    then show ?thesis using 1 k by simp
  next
    case 2
    then have "0 < c" using bk by linarith
    then show ?thesis using 2 k by simp
  next
    case 3
    then have "r < sz - 1" using bk by linarith
    then show ?thesis using 3 k by simp
  next
    case 4
    then have "0 < r" using bk by linarith
    then show ?thesis using 4 k by simp
  qed
  then show "k \<in> set (neighborsOf e sz)"
    unfolding r_def c_def by (auto simp: neighborsOf_unfold [OF assms(1,2)])
qed

lemma neighborsOf_length:
  assumes "2 \<le> sz" "0 \<le> e" "e < sz * sz"
  shows "int (length (neighborsOf e sz)) =
           (let (r, c) = indexToRC e sz;
                row_border = (r = 0 \<or> r = sz - 1);
                col_border = (c = 0 \<or> c = sz - 1)
            in if row_border \<and> col_border then 2
               else if row_border \<or> col_border then 3 else 4)"
proof -
  have pos: "0 < sz" using assms by simp
  define r where "r = e div sz"
  define c where "c = e mod sz"
  have b: "0 \<le> r" "r < sz" "0 \<le> c" "c < sz"
    using rc_bounds [OF pos assms(2,3)] by (simp_all add: r_def c_def)
  have rc: "indexToRC e sz = (r, c)"
    by (simp add: indexToRC_valid [OF pos assms(2)] r_def c_def)
  have "int (length (neighborsOf e sz)) =
      (if 0 < r then 1 else 0) + (if r < sz - 1 then 1 else 0)
    + (if 0 < c then 1 else 0) + (if c < sz - 1 then 1 else 0)"
    unfolding r_def c_def by (simp add: neighborsOf_offsets [OF pos assms(2)])
  also have "\<dots> = (if (r = 0 \<or> r = sz - 1) \<and> (c = 0 \<or> c = sz - 1) then 2
               else if (r = 0 \<or> r = sz - 1) \<or> (c = 0 \<or> c = sz - 1) then 3 else 4)"
    using b assms(1) by auto
  finally show ?thesis by (simp add: rc Let_def)
qed

text \<open>
  C8. On a board of size at least 2 and for an index in \<open>[0, size * size)\<close>,
  \<open>neighborsOf\<close> returns exactly the cells orthogonally adjacent to the index, each
  once and each inside the board; it returns 2 of them at a corner, 3 on a border
  row or column that is not a corner, and 4 in the interior.
\<close>

theorem neighborsOf_exact:
  assumes "2 \<le> sz" "0 \<le> e" "e < sz * sz"
  shows "(\<forall>k. k \<in> set (neighborsOf e sz) \<longleftrightarrow> spec_adjacent sz e k)
       \<and> distinct (neighborsOf e sz)
       \<and> (\<forall>k \<in> set (neighborsOf e sz). 0 \<le> k \<and> k < sz * sz)
       \<and> int (length (neighborsOf e sz)) =
           (let (r, c) = indexToRC e sz;
                row_border = (r = 0 \<or> r = sz - 1);
                col_border = (c = 0 \<or> c = sz - 1)
            in if row_border \<and> col_border then 2
               else if row_border \<or> col_border then 3 else 4)"
proof -
  have pos: "0 < sz" using assms by simp
  show ?thesis
  proof (intro conjI allI ballI)
    fix k
    show "k \<in> set (neighborsOf e sz) \<longleftrightarrow> spec_adjacent sz e k"
      by (rule neighborsOf_adjacent [OF pos assms(2,3)])
  next
    show "distinct (neighborsOf e sz)"
      by (rule neighborsOf_distinct [OF assms(1,2)])
  next
    fix k
    assume "k \<in> set (neighborsOf e sz)"
    then show "0 \<le> k" "k < sz * sz"
      using neighborsOf_in_range [OF pos assms(2,3)] by simp_all
  next
    show "int (length (neighborsOf e sz)) =
           (let (r, c) = indexToRC e sz;
                row_border = (r = 0 \<or> r = sz - 1);
                col_border = (c = 0 \<or> c = sz - 1)
            in if row_border \<and> col_border then 2
               else if row_border \<or> col_border then 3 else 4)"
      by (rule neighborsOf_length [OF assms])
  qed
qed

theorem neighborsOf_exact_witness:
  "neighborsOf 4 3 = [1, 7, 3, 5] \<and> spec_adjacent 3 4 7 \<and> \<not> spec_adjacent 3 4 8
   \<and> distinct (neighborsOf 4 3) \<and> int (length (neighborsOf 4 3)) = 4"
proof -
  have h: "(2::int) \<le> 3" "(0::int) \<le> 4" "(4::int) < 3 * 3" by simp_all
  have n: "neighborsOf 4 3 = [1, 7, 3, 5]"
    by (simp add: neighborsOf_def indexToRC_def rcToIndex_def signed_modulo_int_def)
  have rc: "indexToRC 4 3 = (1, 1)"
    by (simp add: indexToRC_def signed_modulo_int_def)
  note t = neighborsOf_exact [OF h]
  from t have "7 \<in> set (neighborsOf 4 3) \<longleftrightarrow> spec_adjacent 3 4 7"
    and "8 \<in> set (neighborsOf 4 3) \<longleftrightarrow> spec_adjacent 3 4 8" by blast+
  moreover from t have "distinct (neighborsOf 4 3)" by blast
  moreover from t have "int (length (neighborsOf 4 3)) = 4" by (simp add: rc)
  ultimately show ?thesis by (simp add: n)
qed

section \<open>The solved board\<close>

lemma isSolved_loop_iff:
  "isSolved_loop ts i \<longleftrightarrow>
     (\<forall>j. i \<le> j \<and> int j < int (length ts) - 1 \<longrightarrow> ts ! j = int j + 1)
     \<and> get_at ts (int (length ts) - 1) = Some 0"
proof (induction ts i rule: isSolved_loop.induct)
  case (1 ts i)
  show ?case
  proof (cases "int i < int (length ts) - 1")
    case True
    show ?thesis
    proof (cases "ts ! i = int i + 1")
      case here: True
      have "(\<forall>j. i \<le> j \<and> int j < int (length ts) - 1 \<longrightarrow> ts ! j = int j + 1)
          \<longleftrightarrow> (\<forall>j. i + 1 \<le> j \<and> int j < int (length ts) - 1 \<longrightarrow> ts ! j = int j + 1)"
      proof (intro iffI allI impI)
        fix j
        assume a: "\<forall>j. i + 1 \<le> j \<and> int j < int (length ts) - 1 \<longrightarrow> ts ! j = int j + 1"
          and j: "i \<le> j \<and> int j < int (length ts) - 1"
        show "ts ! j = int j + 1"
        proof (cases "j = i")
          case True
          then show ?thesis using here by simp
        next
          case False
          then have "i + 1 \<le> j" using j by simp
          then show ?thesis using a j by blast
        qed
      qed auto
      then show ?thesis
        using True here "1.IH" by (subst isSolved_loop.simps) simp
    next
      case False
      then show ?thesis
        using True by (subst isSolved_loop.simps) auto
    qed
  next
    case False
    then show ?thesis
      by (subst isSolved_loop.simps) auto
  qed
qed

lemma isSolved_iff:
  "isSolved ts \<longleftrightarrow>
     ts \<noteq> [] \<and> (\<forall>j < length ts - 1. ts ! j = int j + 1) \<and> last ts = 0"
proof (cases "ts = []")
  case True
  then show ?thesis by (simp add: isSolved_def isSolved_loop_iff get_at_def)
next
  case False
  then have "0 < length ts" by simp
  then have "get_at ts (int (length ts) - 1) = Some (last ts)"
    using False by (simp add: get_at_def last_conv_nth nat_diff_distrib')
  moreover have "\<And>j. int j < int (length ts) - 1 \<longleftrightarrow> j < length ts - 1"
    using \<open>0 < length ts\<close> by linarith
  ultimately show ?thesis
    using False by (simp add: isSolved_def isSolved_loop_iff)
qed

lemma isSolved_last: "isSolved ts \<Longrightarrow> ts \<noteq> [] \<and> last ts = 0"
  by (simp add: isSolved_iff)

lemma map_Suc_upto: "map (\<lambda>n. n + 1) [0..k] = [1..k + 1]"
  by (rule nth_equalityI) (simp_all add: nth_upto)

lemma createSolved_eq:
  assumes "sz \<noteq> 0"
  shows "createSolved sz = Inr ([1..sz * sz - 1] @ [0])"
proof -
  have "0 < sz * sz" using assms by (auto simp: zero_less_mult_iff)
  then have "\<not> sz * sz - 1 < 0" by linarith
  then show ?thesis
    using map_Suc_upto [of "sz * sz - 2"] by (simp add: createSolved_def)
qed

lemma solved_list_props:
  assumes "1 \<le> n"
  shows "distinct ([1..n - 1] @ [0])" "set ([1..n - 1] @ [0]) = {0..n - 1}"
    "length ([1..n - 1] @ [0]) = nat n" "isSolved ([1..n - 1] @ [0])"
proof -
  show "distinct ([1..n - 1] @ [0])" by simp
  show "set ([1..n - 1] @ [0]) = {0..n - 1}" using assms by auto
  show len: "length ([1..n - 1] @ [0]) = nat n" using assms by simp
  have "([1..n - 1] @ [0]) ! j = int j + 1" if "j < nat n - 1" for j
  proof -
    have "j < nat (n - 1)" using that by linarith
    then show ?thesis by (simp add: nth_append nth_upto)
  qed
  then show "isSolved ([1..n - 1] @ [0])"
    by (simp add: isSolved_iff len del: length_append)
qed

text \<open>
  C7. For every size of at least 2, \<open>createSolved\<close> returns the list
  \<open>1, 2, ..., size * size - 1, 0\<close>. That list has \<open>size * size\<close> entries, holds each
  of \<open>0 .. size * size - 1\<close> once, and \<open>isSolved\<close> is true of it. (The function is a
  function of the size alone.)
\<close>

theorem createSolved_spec:
  assumes "2 \<le> sz"
  shows "createSolved sz = Inr ([1..sz * sz - 1] @ [0])
       \<and> length ([1..sz * sz - 1] @ [0]) = nat (sz * sz)
       \<and> distinct ([1..sz * sz - 1] @ [0])
       \<and> set ([1..sz * sz - 1] @ [0]) = {0..sz * sz - 1}
       \<and> isSolved ([1..sz * sz - 1] @ [0])"
proof -
  have "sz \<noteq> 0" using assms by simp
  moreover have "1 \<le> sz * sz"
    using assms mult_mono [of 1 sz 1 sz] by simp
  ultimately show ?thesis
    using createSolved_eq [of sz] solved_list_props [of "sz * sz"] by simp
qed

theorem createSolved_spec_witness:
  "createSolved 3 = Inr [1, 2, 3, 4, 5, 6, 7, 8, 0]
   \<and> distinct [1, 2, 3, 4, 5, 6, 7, 8, 0::int]
   \<and> set [1, 2, 3, 4, 5, 6, 7, 8, 0::int] = {0..8}
   \<and> isSolved [1, 2, 3, 4, 5, 6, 7, 8, 0]"
proof -
  have u: "[1..3 * 3 - 1] @ [0] = [1, 2, 3, 4, 5, 6, 7, 8, 0::int]"
    by (simp add: upto_rec1)
  show ?thesis
    using createSolved_spec [of 3] unfolding u by simp
qed

section \<open>Array primitives\<close>

lemma get_at_Some:
  "0 \<le> i \<Longrightarrow> i < int (length xs) \<Longrightarrow> get_at xs i = Some (xs ! nat i)"
  by (simp add: get_at_def)

lemma swap_Inr:
  assumes "0 \<le> a" "a < int (length xs)" "0 \<le> b" "b < int (length xs)"
  shows "swap xs a b = Inr ((xs[nat a := xs ! nat b])[nat b := xs ! nat a])"
  using assms by (simp add: swap_def get_at_def)

lemma swap_Inr_iff:
  "swap xs a b = Inr ys \<longleftrightarrow>
     0 \<le> a \<and> a < int (length xs) \<and> 0 \<le> b \<and> b < int (length xs)
     \<and> ys = (xs[nat a := xs ! nat b])[nat b := xs ! nat a]"
  by (auto simp: swap_def get_at_def)

lemma swap_length: "swap xs a b = Inr ys \<Longrightarrow> length ys = length xs"
  by (auto simp: swap_Inr_iff)

lemma swap_set: "swap xs a b = Inr ys \<Longrightarrow> set ys = set xs"
  by (auto simp: swap_Inr_iff set_swap)

lemma swap_distinct: "swap xs a b = Inr ys \<Longrightarrow> distinct ys = distinct xs"
  by (auto simp: swap_Inr_iff distinct_swap)

lemma swap_nth:
  assumes "swap xs a b = Inr ys" "j < length xs"
  shows "ys ! j = (if j = nat b then xs ! nat a else if j = nat a then xs ! nat b else xs ! j)"
  using assms by (auto simp: swap_Inr_iff nth_list_update)

lemma indexOf_absent: "v \<notin> set xs \<Longrightarrow> indexOf xs v = - 1"
  by (induction xs) auto

lemma indexOf_present:
  "v \<in> set xs \<Longrightarrow>
     0 \<le> indexOf xs v \<and> indexOf xs v < int (length xs) \<and> xs ! nat (indexOf xs v) = v"
proof (induction xs)
  case Nil
  then show ?case by simp
next
  case (Cons x xs)
  show ?case
  proof (cases "x = v")
    case True
    then show ?thesis by simp
  next
    case False
    then have "v \<in> set xs" using Cons.prems by simp
    then have ih: "0 \<le> indexOf xs v" "indexOf xs v < int (length xs)"
        "xs ! nat (indexOf xs v) = v"
      using Cons.IH by simp_all
    then show ?thesis using False
      by (simp add: Let_def nat_add_distrib)
  qed
qed

lemma indexOf_first:
  "v \<in> set xs \<Longrightarrow> j < nat (indexOf xs v) \<Longrightarrow> xs ! j \<noteq> v"
proof (induction xs arbitrary: j)
  case Nil
  then show ?case by simp
next
  case (Cons x xs)
  show ?case
  proof (cases "x = v")
    case True
    then show ?thesis using Cons.prems by simp
  next
    case False
    then have m: "v \<in> set xs" using Cons.prems by simp
    then have nn: "0 \<le> indexOf xs v" using indexOf_present by simp
    show ?thesis
    proof (cases j)
      case 0
      then show ?thesis using False by simp
    next
      case (Suc j')
      then have "j' < nat (indexOf xs v)"
        using Cons.prems(2) False nn by (simp add: Let_def nat_add_distrib)
      then show ?thesis using Cons.IH [OF m] Suc by simp
    qed
  qed
qed

lemma indexOf_distinct:
  assumes "distinct xs" "0 \<le> k" "k < int (length xs)" "xs ! nat k = v"
  shows "indexOf xs v = k"
proof -
  have m: "v \<in> set xs" using assms by (metis nat_less_iff nth_mem)
  note p = indexOf_present [OF m]
  have "nat (indexOf xs v) < length xs" "nat k < length xs"
    using assms p by linarith+
  moreover have "xs ! nat (indexOf xs v) = xs ! nat k"
    using assms p by simp
  ultimately have "nat (indexOf xs v) = nat k"
    using assms(1) by (simp add: nth_eq_iff_index_eq)
  moreover have "0 \<le> indexOf xs v" using p by simp
  ultimately show ?thesis using assms(2) by linarith
qed

section \<open>Moves on a board\<close>

lemma valid_board_length:
  "valid_board sz ts \<Longrightarrow> int (length ts) = sz * sz"
  by (simp add: valid_board_def)

lemma move_ok:
  assumes "0 < sz" "valid_board sz ts" "0 \<le> e" "e < sz * sz" "ts ! nat e = 0"
    and "k \<in> set (neighborsOf e sz)"
  shows "\<exists>ts'. swap ts k e = Inr ts' \<and> valid_board sz ts' \<and> ts' ! nat k = 0
           \<and> ts' ! nat e = ts ! nat k \<and> ts ! nat k \<noteq> 0 \<and> spec_legal_move sz ts ts'
           \<and> 0 \<le> k \<and> k < sz * sz \<and> k \<noteq> e"
proof -
  have len: "int (length ts) = sz * sz" using assms(2) by (rule valid_board_length)
  have kr: "0 \<le> k" "k < sz * sz"
    using neighborsOf_in_range [OF assms(1,3,4,6)] by simp_all
  have ke: "k \<noteq> e" using neighborsOf_not_self [OF assms(1,3)] assms(6) by auto
  then have nke: "nat k \<noteq> nat e" using kr assms(3) by simp
  have lt: "nat k < length ts" "nat e < length ts"
    using kr assms(3,4) len by linarith+
  define ts' where "ts' = (ts[nat k := ts ! nat e])[nat e := ts ! nat k]"
  have sw: "swap ts k e = Inr ts'"
    using kr assms(3,4) len by (simp add: swap_Inr ts'_def)
  have vb: "valid_board sz ts'"
    using assms(2) swap_length [OF sw] swap_set [OF sw] swap_distinct [OF sw]
    by (simp add: valid_board_def)
  have k0: "ts' ! nat k = 0"
    using swap_nth [OF sw lt(1)] nke assms(5) by simp
  have e0: "ts' ! nat e = ts ! nat k"
    using swap_nth [OF sw lt(2)] by simp
  have "distinct ts" using assms(2) by (simp add: valid_board_def)
  then have "ts ! nat k \<noteq> ts ! nat e"
    using lt nke by (simp add: nth_eq_iff_index_eq)
  then have nz: "ts ! nat k \<noteq> 0" using assms(5) by simp
  have adj: "spec_adjacent sz e k"
    using neighborsOf_adjacent [OF assms(1,3,4)] assms(6) by simp
  have "get_at ts e = Some 0"
    using assms(3,4,5) len by (simp add: get_at_def)
  moreover have "e \<in> set [0..int (length ts) - 1]" "k \<in> set [0..int (length ts) - 1]"
    using kr assms(3,4) len by simp_all
  ultimately have "spec_legal_move sz ts ts'"
    unfolding spec_legal_move_def using adj sw by blast
  then show ?thesis using sw vb k0 e0 nz kr ke by blast
qed

lemma floor_pick:
  assumes "0 \<le> u" "u < 1" "0 < n"
  shows "0 \<le> \<lfloor>u * real n\<rfloor> \<and> \<lfloor>u * real n\<rfloor> < int n"
proof -
  have "0 \<le> u * real n" using assms by simp
  then have lo: "0 \<le> \<lfloor>u * real n\<rfloor>" by simp
  have "u * real n < 1 * real n" using assms by (intro mult_strict_right_mono) auto
  then have "u * real n < real_of_int (int n)" by simp
  then have "\<lfloor>u * real n\<rfloor> < int n" by (simp only: floor_less_iff)
  then show ?thesis using lo by simp
qed

lemma shuffle_step_inv:
  assumes "2 \<le> sz" "0 \<le> u" "u < 1" "walk_inv sz t0 (ts, e)"
  shows "\<exists>ts' e'. shuffle_step sz u (ts, e) = Inr (ts', e') \<and> walk_inv sz t0 (ts', e')"
proof -
  have pos: "0 < sz" using assms(1) by simp
  have inv: "valid_board sz ts" "0 \<le> e" "e < sz * sz" "ts ! nat e = 0"
      "rtranclp (spec_legal_move sz) t0 ts"
    using assms(4) by (simp_all add: walk_inv_def)
  define adj where "adj = neighborsOf e sz"
  have "2 \<le> length adj"
    unfolding adj_def by (rule neighborsOf_length_ge2 [OF assms(1) inv(2)])
  then have n: "0 < length adj" by linarith
  define p where "p = \<lfloor>u * real (length adj)\<rfloor>"
  have pr: "0 \<le> p" "p < int (length adj)"
    using floor_pick [OF assms(2,3) n] by (simp_all add: p_def)
  define k where "k = adj ! nat p"
  have g: "get_at adj p = Some k" using pr by (simp add: get_at_def k_def)
  have "nat p < length adj" using pr by linarith
  then have "k \<in> set (neighborsOf e sz)"
    unfolding k_def adj_def by simp
  from move_ok [OF pos inv(1-4) this] obtain ts' where
    m: "swap ts k e = Inr ts'" "valid_board sz ts'" "ts' ! nat k = 0"
       "spec_legal_move sz ts ts'" "0 \<le> k" "k < sz * sz"
    by blast
  have "shuffle_step sz u (ts, e) = Inr (ts', k)"
    using g m(1) by (simp add: shuffle_step_def adj_def [symmetric] p_def [symmetric])
  moreover have "rtranclp (spec_legal_move sz) t0 ts'"
    using inv(5) m(4) by (rule rtranclp.rtrancl_into_rtrancl)
  then have "walk_inv sz t0 (ts', k)"
    using m by (simp add: walk_inv_def)
  ultimately show ?thesis by blast
qed

lemma shuffle_loop_inv:
  "2 \<le> sz \<Longrightarrow> unit_interval rnd \<Longrightarrow> walk_inv sz t0 st \<Longrightarrow>
     \<exists>st'. shuffle_loop sz rnd steps i st = Inr st' \<and> walk_inv sz t0 st'"
proof (induction sz rnd steps i st rule: shuffle_loop.induct)
  case (1 sz rnd steps i st)
  show ?case
  proof (cases "i < steps")
    case True
    obtain ts e where st: "st = (ts, e)" by (cases st)
    have u: "0 \<le> rnd i" "rnd i < 1"
      using "1.prems"(2) by (simp_all add: unit_interval_def)
    from shuffle_step_inv [OF "1.prems"(1) u] "1.prems"(3) obtain ts' e' where
      s: "shuffle_step sz (rnd i) st = Inr (ts', e')" "walk_inv sz t0 (ts', e')"
      unfolding st by blast
    from "1.IH" [OF True s(1) "1.prems"(1,2) s(2)] obtain st' where
      "shuffle_loop sz rnd steps (i + 1) (ts', e') = Inr st'" "walk_inv sz t0 st'"
      by blast
    then show ?thesis
      using True s(1) by (subst shuffle_loop.simps) simp
  next
    case False
    then show ?thesis using "1.prems" by (subst shuffle_loop.simps) simp
  qed
qed

section \<open>The shuffle\<close>

lemma solved_walk_inv:
  assumes "2 \<le> sz"
  defines "t0 \<equiv> [1..sz * sz - 1] @ [0]"
  shows "createSolved sz = Inr t0" "indexOf t0 0 = sz * sz - 1"
    "walk_inv sz t0 (t0, sz * sz - 1)"
proof -
  have nz: "sz \<noteq> 0" using assms by simp
  have n: "1 \<le> sz * sz" using assms(1) mult_mono [of 1 sz 1 sz] by simp
  note p = solved_list_props [OF n, folded t0_def]
  show "createSolved sz = Inr t0" using createSolved_eq [OF nz] by (simp add: t0_def)
  have vb: "valid_board sz t0" using p by (simp add: valid_board_def)
  have l: "t0 ! nat (sz * sz - 1) = 0"
    using n by (simp add: t0_def nth_append)
  have "sz * sz - 1 < int (length t0)" using p(3) n by simp
  then show "indexOf t0 0 = sz * sz - 1"
    using indexOf_distinct [OF p(1) _ _ l] n by simp
  show "walk_inv sz t0 (t0, sz * sz - 1)"
    using vb l n by (simp add: walk_inv_def)
qed

lemma shuffle_walk:
  assumes "2 \<le> sz" "unit_interval rnd"
  shows "\<exists>t0 ts e. createSolved sz = Inr t0
           \<and> shuffle_loop sz rnd steps 0 (t0, indexOf t0 0) = Inr (ts, e)
           \<and> walk_inv sz t0 (ts, e)"
proof -
  define t0 where "t0 = [1..sz * sz - 1] @ [0]"
  note s = solved_walk_inv [OF assms(1), folded t0_def]
  from shuffle_loop_inv [OF assms s(3), of steps 0] obtain st' where
    "shuffle_loop sz rnd steps 0 (t0, sz * sz - 1) = Inr st'" "walk_inv sz t0 st'"
    by blast
  then show ?thesis using s(1,2) by (cases st') auto
qed

lemma shuffleSolvable_result:
  assumes "2 \<le> sz" "unit_interval rnd"
  shows "\<exists>t0 ts. createSolved sz = Inr t0 \<and> shuffleSolvable sz steps rnd = Inr ts
           \<and> valid_board sz ts \<and> rtranclp (spec_legal_move sz) t0 ts \<and> \<not> isSolved ts"
proof -
  have pos: "0 < sz" using assms(1) by simp
  from shuffle_walk [OF assms, of steps] obtain t0 ts e where
    c: "createSolved sz = Inr t0"
    and l: "shuffle_loop sz rnd steps 0 (t0, indexOf t0 0) = Inr (ts, e)"
    and w: "walk_inv sz t0 (ts, e)"
    by blast
  have inv: "valid_board sz ts" "0 \<le> e" "e < sz * sz" "ts ! nat e = 0"
      "rtranclp (spec_legal_move sz) t0 ts"
    using w by (simp_all add: walk_inv_def)
  show ?thesis
  proof (cases "isSolved ts")
    case False
    then have "shuffleSolvable sz steps rnd = Inr ts"
      using c l by (simp add: shuffleSolvable_def)
    then show ?thesis using c inv False by blast
  next
    case True
    define adj where "adj = neighborsOf e sz"
    have "2 \<le> length adj"
      unfolding adj_def by (rule neighborsOf_length_ge2 [OF assms(1) inv(2)])
    then have n: "0 < length adj" by linarith
    define k where "k = adj ! 0"
    have g: "get_at adj 0 = Some k" using n by (simp add: get_at_def k_def)
    have "k \<in> set (neighborsOf e sz)"
      using n unfolding k_def adj_def by simp
    from move_ok [OF pos inv(1-4) this] obtain ts' where
      m: "swap ts k e = Inr ts'" "valid_board sz ts'" "ts' ! nat e = ts ! nat k"
         "ts ! nat k \<noteq> 0" "spec_legal_move sz ts ts'"
      by blast
    have r: "shuffleSolvable sz steps rnd = Inr ts'"
      using c l True g m(1) by (simp add: shuffleSolvable_def adj_def [symmetric])
    have len: "int (length ts) = sz * sz" using inv(1) by (rule valid_board_length)
    have ne: "ts \<noteq> []" "last ts = 0" using isSolved_last [OF True] by simp_all
    have "indexOf ts 0 = e"
      using indexOf_distinct [of ts e 0] inv len by (simp add: valid_board_def)
    moreover have "indexOf ts 0 = int (length ts) - 1"
    proof (rule indexOf_distinct)
      show "distinct ts" using inv(1) by (simp add: valid_board_def)
      show "0 \<le> int (length ts) - 1" using ne by (cases ts) simp_all
      show "int (length ts) - 1 < int (length ts)" by simp
      show "ts ! nat (int (length ts) - 1) = 0"
        using ne by (simp add: last_conv_nth nat_diff_distrib')
    qed
    ultimately have e: "nat e = length ts - 1" by simp
    have len': "length ts' = length ts" using swap_length [OF m(1)] .
    have "ts' \<noteq> []" using ne len' by auto
    then have "last ts' = ts' ! nat e" using e len' by (simp add: last_conv_nth)
    then have "last ts' \<noteq> 0" using m(3,4) by simp
    then have "\<not> isSolved ts'" using isSolved_last by blast
    moreover have "rtranclp (spec_legal_move sz) t0 ts'"
      using inv(5) m(5) by (rule rtranclp.rtrancl_into_rtrancl)
    ultimately show ?thesis using c r m(2) by blast
  qed
qed

lemma shuffle_loop_unfold:
  "i < steps \<Longrightarrow>
     shuffle_loop sz rnd steps i st =
       (case shuffle_step sz (rnd i) st of
          Inl e \<Rightarrow> Inl e
        | Inr st' \<Rightarrow> shuffle_loop sz rnd steps (i + 1) st')"
  by (subst shuffle_loop.simps) simp

lemma shuffle_loop_done: "\<not> i < steps \<Longrightarrow> shuffle_loop sz rnd steps i st = Inr st"
  by (subst shuffle_loop.simps) simp

lemma shuffle_loop_split:
  "j \<le> i \<Longrightarrow> i \<le> steps \<Longrightarrow>
     shuffle_loop sz rnd steps j st =
       (case shuffle_loop sz rnd i j st of
          Inl e \<Rightarrow> Inl e
        | Inr st' \<Rightarrow> shuffle_loop sz rnd steps i st')"
proof (induction sz rnd i j st rule: shuffle_loop.induct)
  case (1 sz rnd i j st)
  show ?case
  proof (cases "j < i")
    case True
    then have js: "j < steps" using "1.prems" by simp
    show ?thesis
    proof (cases "shuffle_step sz (rnd j) st")
      case (Inl e)
      then show ?thesis
        by (simp add: shuffle_loop_unfold [OF True] shuffle_loop_unfold [OF js])
    next
      case (Inr st'')
      have "shuffle_loop sz rnd steps (j + 1) st'' =
          (case shuffle_loop sz rnd i (j + 1) st'' of
             Inl e \<Rightarrow> Inl e
           | Inr st' \<Rightarrow> shuffle_loop sz rnd steps i st')"
        using "1.IH" [OF True Inr] True "1.prems" by simp
      then show ?thesis
        using Inr by (simp add: shuffle_loop_unfold [OF True] shuffle_loop_unfold [OF js])
    qed
  next
    case False
    then have "j = i" using "1.prems" by simp
    then show ?thesis by (simp add: shuffle_loop_done)
  qed
qed

lemmas shuffle_eval =
  shuffleSolvable_def createSolved_def shuffle_loop.simps shuffle_step_def neighborsOf_def
  indexToRC_def rcToIndex_def get_at_def swap_def isSolved_def isSolved_loop.simps
  signed_modulo_int_def upto_rec1

text \<open>
  C2. For every size of at least 2, every number of steps of at least 1 and every
  sequence of values of \<open>Math.random()\<close> in \<open>[0, 1)\<close>, \<open>shuffleSolvable\<close> returns a
  board: it holds each of \<open>0 .. size * size - 1\<close> once, and it is reached from the
  board of \<open>createSolved\<close> by finitely many legal moves.
\<close>

theorem shuffleSolvable_reachable:
  assumes "2 \<le> sz" "1 \<le> steps" "unit_interval rnd"
  shows "\<exists>t0 ts. createSolved sz = Inr t0 \<and> shuffleSolvable sz steps rnd = Inr ts
           \<and> length ts = nat (sz * sz) \<and> distinct ts \<and> set ts = {0..sz * sz - 1}
           \<and> rtranclp (spec_legal_move sz) t0 ts"
  using shuffleSolvable_result [OF assms(1,3), of steps]
  unfolding valid_board_def by blast

theorem shuffleSolvable_reachable_witness:
  "shuffleSolvable 3 3 (\<lambda>i. 1 / 2) = Inr [1, 2, 3, 4, 5, 6, 7, 0, 8]
   \<and> rtranclp (spec_legal_move 3) [1, 2, 3, 4, 5, 6, 7, 8, 0] [1, 2, 3, 4, 5, 6, 7, 0, 8]"
proof -
  have u: "unit_interval (\<lambda>i. 1 / 2)" by (simp add: unit_interval_def)
  have c: "createSolved 3 = Inr [1, 2, 3, 4, 5, 6, 7, 8, 0]"
    by (simp add: createSolved_def upto_rec1)
  have r: "shuffleSolvable 3 3 (\<lambda>i. 1 / 2) = Inr [1, 2, 3, 4, 5, 6, 7, 0, 8]"
    by (simp add: shuffle_eval)
  from shuffleSolvable_reachable [of 3 3 "\<lambda>i. 1 / 2"] u
  show ?thesis unfolding c r by simp
qed

text \<open>
  C3. For every size of at least 2, every number of steps (in particular every
  number of at least 1) and every sequence of values of \<open>Math.random()\<close> in
  \<open>[0, 1)\<close>, \<open>shuffleSolvable\<close> returns a board of which \<open>isSolved\<close> is false: when the
  walk ends on the solved board, the extra swap moves the empty cell away from
  the last position.
\<close>

theorem shuffleSolvable_unsolved:
  assumes "2 \<le> sz" "unit_interval rnd"
  shows "\<exists>ts. shuffleSolvable sz steps rnd = Inr ts \<and> \<not> isSolved ts"
  using shuffleSolvable_result [OF assms, of steps] by blast

theorem shuffleSolvable_unsolved_witness:
  "shuffleSolvable 2 2 (\<lambda>i. 0) = Inr [1, 0, 3, 2] \<and> \<not> isSolved [1, 0, 3, 2]
   \<and> shuffle_loop 2 (\<lambda>i. 0) 2 0 ([1, 2, 3, 0], 3) = Inr ([1, 2, 3, 0], 3)"
proof -
  have u: "unit_interval (\<lambda>i. 0)" by (simp add: unit_interval_def)
  have r: "shuffleSolvable 2 2 (\<lambda>i. 0) = Inr [1, 0, 3, 2]"
    by (simp add: shuffle_eval)
  have l: "shuffle_loop 2 (\<lambda>i. 0) 2 0 ([1, 2, 3, 0], 3) = Inr ([1, 2, 3, 0], 3)"
    by (simp add: shuffle_eval)
  from shuffleSolvable_unsolved [of 2 "\<lambda>i. 0" 2] u
  show ?thesis unfolding r using l by simp
qed

text \<open>
  C10. For every size of at least 2 and every sequence of values of
  \<open>Math.random()\<close> in \<open>[0, 1)\<close>, every array access of \<open>shuffleSolvable\<close> is in
  bounds. The state after \<open>i\<close> iterations is \<open>shuffle_loop sz rnd i 0\<close> of the initial
  state (\<open>shuffle_loop_split\<close>); for each \<open>i\<close> up to \<open>steps\<close>, so at the start of every
  iteration and at the final fix-up, the array has \<open>size * size\<close> cells, \<open>empty\<close> is
  an index of the array and holds 0, \<open>neighborsOf\<close> returns at least 2 indices, all
  of them indices of the array, and the position \<open>Math.floor(random * length)\<close> is
  an index of that list. Hence \<open>shuffleSolvable\<close> returns a board and never the
  fault of an access out of range.
\<close>

theorem shuffleSolvable_in_bounds:
  assumes "2 \<le> sz" "unit_interval rnd"
  shows "\<exists>t0. createSolved sz = Inr t0 \<and>
           (\<forall>i \<le> steps. \<exists>ts e.
              shuffle_loop sz rnd i 0 (t0, indexOf t0 0) = Inr (ts, e)
              \<and> int (length ts) = sz * sz \<and> 0 \<le> e \<and> e < sz * sz \<and> get_at ts e = Some 0
              \<and> 2 \<le> length (neighborsOf e sz)
              \<and> (\<forall>k \<in> set (neighborsOf e sz). 0 \<le> k \<and> k < sz * sz)
              \<and> 0 \<le> \<lfloor>rnd i * real (length (neighborsOf e sz))\<rfloor>
              \<and> \<lfloor>rnd i * real (length (neighborsOf e sz))\<rfloor> < int (length (neighborsOf e sz)))
           \<and> (\<exists>ts. shuffleSolvable sz steps rnd = Inr ts)"
proof -
  have pos: "0 < sz" using assms(1) by simp
  define t0 where "t0 = [1..sz * sz - 1] @ [0]"
  note s = solved_walk_inv [OF assms(1), folded t0_def]
  have "\<exists>ts e. shuffle_loop sz rnd i 0 (t0, indexOf t0 0) = Inr (ts, e)
          \<and> int (length ts) = sz * sz \<and> 0 \<le> e \<and> e < sz * sz \<and> get_at ts e = Some 0
          \<and> 2 \<le> length (neighborsOf e sz)
          \<and> (\<forall>k \<in> set (neighborsOf e sz). 0 \<le> k \<and> k < sz * sz)
          \<and> 0 \<le> \<lfloor>rnd i * real (length (neighborsOf e sz))\<rfloor>
          \<and> \<lfloor>rnd i * real (length (neighborsOf e sz))\<rfloor> < int (length (neighborsOf e sz))"
    for i
  proof -
    from shuffle_loop_inv [OF assms s(3), of i 0] obtain ts e where
      l: "shuffle_loop sz rnd i 0 (t0, sz * sz - 1) = Inr (ts, e)"
      and w: "walk_inv sz t0 (ts, e)"
      by auto
    have inv: "valid_board sz ts" "0 \<le> e" "e < sz * sz" "ts ! nat e = 0"
      using w by (simp_all add: walk_inv_def)
    have len: "int (length ts) = sz * sz" using inv(1) by (rule valid_board_length)
    have g: "get_at ts e = Some 0" using inv len by (simp add: get_at_def)
    have n: "2 \<le> length (neighborsOf e sz)"
      by (rule neighborsOf_length_ge2 [OF assms(1) inv(2)])
    then have n0: "0 < length (neighborsOf e sz)" by linarith
    have u: "0 \<le> rnd i" "rnd i < 1"
      using assms(2) by (simp_all add: unit_interval_def)
    note f = floor_pick [OF u n0]
    have "\<forall>k \<in> set (neighborsOf e sz). 0 \<le> k \<and> k < sz * sz"
      using neighborsOf_in_range [OF pos inv(2,3)] by blast
    then show ?thesis using l len inv(2,3) g n f s(2) by auto
  qed
  moreover have "\<exists>ts. shuffleSolvable sz steps rnd = Inr ts"
    using shuffleSolvable_result [OF assms, of steps] by blast
  ultimately show ?thesis using s(1) by blast
qed

theorem shuffleSolvable_in_bounds_witness:
  "shuffleSolvable 3 4 (\<lambda>i. if i = 0 then 9 / 10 else if i = 1 then 4 / 10 else 7 / 10)
     = Inr [1, 2, 3, 4, 5, 0, 7, 8, 6]
   \<and> shuffle_loop 3 (\<lambda>i. if i = 0 then 9 / 10 else if i = 1 then 4 / 10 else 7 / 10) 2 0
         ([1, 2, 3, 4, 5, 6, 7, 8, 0], 8) = Inr ([1, 2, 3, 4, 5, 6, 0, 7, 8], 6)"
proof -
  define rnd :: "nat \<Rightarrow> real"
    where "rnd = (\<lambda>i. if i = 0 then 9 / 10 else if i = 1 then 4 / 10 else 7 / 10)"
  have u: "unit_interval rnd" by (simp add: unit_interval_def rnd_def)
  have h: "(2::int) \<le> 3" by simp
  have c: "createSolved 3 = Inr [1, 2, 3, 4, 5, 6, 7, 8, 0]"
    by (simp add: createSolved_def upto_rec1)
  have r: "shuffleSolvable 3 4 rnd = Inr [1, 2, 3, 4, 5, 0, 7, 8, 6]"
    by (simp add: shuffle_eval rnd_def)
  have l: "shuffle_loop 3 rnd 2 0 ([1, 2, 3, 4, 5, 6, 7, 8, 0], 8)
             = Inr ([1, 2, 3, 4, 5, 6, 0, 7, 8], 6)"
    by (simp add: shuffle_eval rnd_def)
  from shuffleSolvable_in_bounds [OF h u, of 4]
  have "\<exists>ts. shuffleSolvable 3 4 rnd = Inr ts" by blast
  then show ?thesis using r l unfolding rnd_def by simp
qed

section \<open>Tile clicks\<close>

lemma onTileClick_noop:
  assumes "truthy (finishedAt game)
         \<or> index \<notin> set (neighborsOf (indexOf (tiles game) 0) (size_f game))"
  shows "onTileClick game index now1 now2 = Inr game"
  using assms by (auto simp: onTileClick_def Let_def)

lemma onTileClick_swap:
  assumes "\<not> truthy (finishedAt game)"
    and "index \<in> set (neighborsOf (indexOf (tiles game) 0) (size_f game))"
    and "swap (tiles game) index (indexOf (tiles game) 0) = Inr next"
  shows "onTileClick game index now1 now2 =
           Inr (game\<lparr>tiles := next,
                     moves := moves game + 1,
                     startedAt := Some (nullish (startedAt game) now1),
                     finishedAt := (if isSolved next then Some now2 else None)\<rparr>)"
  using assms by (simp add: onTileClick_def Let_def)

text \<open>
  C4. In a playing state (\<open>finishedAt\<close> undefined) whose board has \<open>size * size\<close>
  cells, one of them 0, a click on an index that \<open>neighborsOf\<close> lists for the
  position of 0 returns a state in which exactly the values at the clicked index
  and at the empty index are exchanged, \<open>moves\<close> is one more, \<open>startedAt\<close> is the
  time of the click if it was undefined and unchanged otherwise, \<open>finishedAt\<close> is the
  time of the click if the new board is solved and undefined otherwise, and the
  size is unchanged.
\<close>

theorem onTileClick_move:
  assumes "finishedAt game = None"
    and "0 < size_f game"
    and "length (tiles game) = nat (size_f game * size_f game)"
    and "0 \<in> set (tiles game)"
    and "index \<in> set (neighborsOf (indexOf (tiles game) 0) (size_f game))"
  shows "\<exists>g'. onTileClick game index now1 now2 = Inr g'
           \<and> length (tiles g') = length (tiles game)
           \<and> (\<forall>j < length (tiles game).
                 tiles g' ! j =
                   (if j = nat index then tiles game ! nat (indexOf (tiles game) 0)
                    else if j = nat (indexOf (tiles game) 0) then tiles game ! nat index
                    else tiles game ! j))
           \<and> tiles game ! nat (indexOf (tiles game) 0) = 0
           \<and> moves g' = moves game + 1
           \<and> startedAt g' = Some (case startedAt game of None \<Rightarrow> now1 | Some s \<Rightarrow> s)
           \<and> finishedAt g' = (if isSolved (tiles g') then Some now2 else None)
           \<and> size_f g' = size_f game"
proof -
  define e where "e = indexOf (tiles game) 0"
  define sz where "sz = size_f game"
  have p: "0 \<le> e" "e < int (length (tiles game))" "tiles game ! nat e = 0"
    using indexOf_present [OF assms(4)] by (simp_all add: e_def)
  have len: "int (length (tiles game)) = sz * sz"
    using assms(3) by (simp add: sz_def)
  have k: "0 \<le> index \<and> index < sz * sz"
    using neighborsOf_in_range [of sz e index] assms(2,5) p len
    by (simp add: e_def sz_def)
  define nxt where
    "nxt = ((tiles game)[nat index := tiles game ! nat e])[nat e := tiles game ! nat index]"
  have sw: "swap (tiles game) index e = Inr nxt"
    using k p(1,2) len by (simp add: swap_Inr nxt_def)
  have nt: "\<not> truthy (finishedAt game)" using assms(1) by (simp add: truthy_def)
  define g' where
    "g' = game\<lparr>tiles := nxt, moves := moves game + 1,
                 startedAt := Some (nullish (startedAt game) now1),
                 finishedAt := (if isSolved nxt then Some now2 else None)\<rparr>"
  have r: "onTileClick game index now1 now2 = Inr g'"
    using onTileClick_swap [OF nt assms(5) sw [unfolded e_def]] by (simp add: g'_def)
  have "index \<noteq> e"
    using neighborsOf_not_self [of sz e] assms(2,5) p(1) by (auto simp: e_def sz_def)
  then have ne: "nat index \<noteq> nat e"
    using p(1) k by linarith
  have nth: "tiles g' ! j =
      (if j = nat index then tiles game ! nat e
       else if j = nat e then tiles game ! nat index else tiles game ! j)"
    if "j < length (tiles game)" for j
    using swap_nth [OF sw that] ne by (auto simp: g'_def)
  have "length (tiles g') = length (tiles game)"
    using swap_length [OF sw] by (simp add: g'_def)
  moreover have "moves g' = moves game + 1" "size_f g' = size_f game"
    "startedAt g' = Some (case startedAt game of None \<Rightarrow> now1 | Some s \<Rightarrow> s)"
    "finishedAt g' = (if isSolved (tiles g') then Some now2 else None)"
    by (simp_all add: g'_def nullish_def)
  ultimately show ?thesis using r nth p(3) unfolding e_def by blast
qed

theorem onTileClick_move_witness:
  "onTileClick \<lparr>tiles = [1, 2, 3, 4, 5, 6, 7, 0, 8], size_f = 3, moves = 0,
                 startedAt = None, finishedAt = None\<rparr> 8 1000 1001
     = Inr \<lparr>tiles = [1, 2, 3, 4, 5, 6, 7, 8, 0], size_f = 3, moves = 1,
             startedAt = Some 1000, finishedAt = Some 1001\<rparr>
   \<and> isSolved [1, 2, 3, 4, 5, 6, 7, 8, 0]"
proof -
  define g where "g = \<lparr>tiles = [1, 2, 3, 4, 5, 6, 7, 0, 8], size_f = 3, moves = 0,
                 startedAt = None, finishedAt = None\<rparr>"
  have i: "indexOf (tiles g) 0 = 7" by (simp add: g_def)
  have n: "neighborsOf 7 3 = [4, 6, 8]"
    by (simp add: neighborsOf_def indexToRC_def rcToIndex_def signed_modulo_int_def)
  have s: "isSolved [1, 2, 3, 4, 5, 6, 7, 8, 0]"
    by (simp add: isSolved_def isSolved_loop.simps get_at_def)
  have h: "finishedAt g = None" "0 < size_f g"
    "length (tiles g) = nat (size_f g * size_f g)" "0 \<in> set (tiles g)"
    "8 \<in> set (neighborsOf (indexOf (tiles g) 0) (size_f g))"
    unfolding i by (simp_all add: g_def n)
  from onTileClick_move [OF h, of 1000 1001] obtain g' where
    r: "onTileClick g 8 1000 1001 = Inr g'"
    and m: "moves g' = 1" "size_f g' = 3" "startedAt g' = Some 1000"
      "finishedAt g' = (if isSolved (tiles g') then Some 1001 else None)"
    by (auto simp: g_def)
  have "onTileClick g 8 1000 1001
     = Inr \<lparr>tiles = [1, 2, 3, 4, 5, 6, 7, 8, 0], size_f = 3, moves = 1,
             startedAt = Some 1000, finishedAt = Some 1001\<rparr>"
    by (simp add: onTileClick_def g_def n swap_def get_at_def s truthy_def nullish_def)
  then show ?thesis using s r m by (simp add: g_def)
qed

section \<open>Reachable states\<close>

lemma newGame_result:
  assumes "2 \<le> sz" "unit_interval rnd"
  shows "\<exists>g. newGame sz rnd = Inr g \<and> size_f g = sz \<and> valid_board sz (tiles g)
           \<and> \<not> isSolved (tiles g) \<and> finishedAt g = None \<and> startedAt g = None
           \<and> moves g = 0"
proof -
  from shuffleSolvable_result [OF assms, of 300] obtain ts where
    "shuffleSolvable sz 300 rnd = Inr ts" "valid_board sz ts" "\<not> isSolved ts"
    by blast
  then show ?thesis by (simp add: newGame_def)
qed

lemma newGame_inv:
  assumes "2 \<le> sz" "unit_interval rnd" "newGame sz rnd = Inr g"
  shows "state_inv g \<and> finishedAt g = None \<and> \<not> isSolved (tiles g)"
  using newGame_result [OF assms(1,2)] assms by (auto simp: state_inv_def)

lemma valid_board_empty:
  assumes "2 \<le> sz" "valid_board sz ts"
  shows "0 \<le> indexOf ts 0" "indexOf ts 0 < sz * sz" "ts ! nat (indexOf ts 0) = 0"
proof -
  have "1 \<le> sz * sz" using assms(1) mult_mono [of 1 sz 1 sz] by simp
  then have "0 \<in> set ts" using assms(2) by (simp add: valid_board_def)
  from indexOf_present [OF this] valid_board_length [OF assms(2)]
  show "0 \<le> indexOf ts 0" "indexOf ts 0 < sz * sz" "ts ! nat (indexOf ts 0) = 0"
    by simp_all
qed

lemma onTileClick_cases:
  assumes "state_inv g"
  shows "onTileClick g index now1 now2 = Inr g
       \<or> (\<not> truthy (finishedAt g)
          \<and> index \<in> set (neighborsOf (indexOf (tiles g) 0) (size_f g))
          \<and> (\<exists>nxt. swap (tiles g) index (indexOf (tiles g) 0) = Inr nxt
                \<and> valid_board (size_f g) nxt
                \<and> onTileClick g index now1 now2 =
                    Inr (g\<lparr>tiles := nxt, moves := moves g + 1,
                           startedAt := Some (nullish (startedAt g) now1),
                           finishedAt := (if isSolved nxt then Some now2 else None)\<rparr>)))"
proof (cases "truthy (finishedAt g)
    \<or> index \<notin> set (neighborsOf (indexOf (tiles g) 0) (size_f g))")
  case True
  then show ?thesis using onTileClick_noop [of g index now1 now2] by blast
next
  case False
  then have nt: "\<not> truthy (finishedAt g)"
    and k: "index \<in> set (neighborsOf (indexOf (tiles g) 0) (size_f g))"
    by simp_all
  have sz: "2 \<le> size_f g" and vb: "valid_board (size_f g) (tiles g)"
    using assms by (simp_all add: state_inv_def)
  then have pos: "0 < size_f g" by simp
  note e = valid_board_empty [OF sz vb]
  from move_ok [OF pos vb e k] obtain nxt where
    m: "swap (tiles g) index (indexOf (tiles g) 0) = Inr nxt" "valid_board (size_f g) nxt"
    by blast
  show ?thesis
    using nt k m onTileClick_swap [OF nt k m(1), of now1 now2] by blast
qed

lemma step_inv:
  assumes "state_inv g" "admissible a" "step g a = Inr g'"
  shows "state_inv g'"
proof (cases a)
  case (TileClick index now1 now2)
  then have r: "onTileClick g index now1 now2 = Inr g'" using assms(3) by simp
  from onTileClick_cases [OF assms(1), of index now1 now2]
  show ?thesis
  proof
    assume "onTileClick g index now1 now2 = Inr g"
    then show ?thesis using r assms(1) by simp
  next
    assume "\<not> truthy (finishedAt g)
          \<and> index \<in> set (neighborsOf (indexOf (tiles g) 0) (size_f g))
          \<and> (\<exists>nxt. swap (tiles g) index (indexOf (tiles g) 0) = Inr nxt
                \<and> valid_board (size_f g) nxt
                \<and> onTileClick g index now1 now2 =
                    Inr (g\<lparr>tiles := nxt, moves := moves g + 1,
                           startedAt := Some (nullish (startedAt g) now1),
                           finishedAt := (if isSolved nxt then Some now2 else None)\<rparr>))"
    then obtain nxt where "valid_board (size_f g) nxt"
      "g' = g\<lparr>tiles := nxt, moves := moves g + 1,
                startedAt := Some (nullish (startedAt g) now1),
                finishedAt := (if isSolved nxt then Some now2 else None)\<rparr>"
      using r by auto
    then show ?thesis using assms(1) by (simp add: state_inv_def)
  qed
next
  case (Shuffle rnd)
  then have "newGame (size_f g) rnd = Inr g'" "unit_interval rnd"
    using assms(2,3) by (simp_all add: onShuffle_def)
  moreover have "2 \<le> size_f g" using assms(1) by (simp add: state_inv_def)
  ultimately show ?thesis using newGame_inv by blast
next
  case (Resize sz rnd)
  then show ?thesis using assms(2,3) newGame_inv [of sz rnd g'] by simp
qed

lemma reachable_inv: "reachable g \<Longrightarrow> state_inv g"
proof (induction rule: reachable.induct)
  case (mount sz rnd g)
  then show ?case using newGame_inv by blast
next
  case (step g a g')
  then show ?case using step_inv by blast
qed

lemma step_total:
  assumes "state_inv g" "admissible a"
  shows "\<exists>g'. step g a = Inr g'"
proof (cases a)
  case (TileClick index now1 now2)
  then show ?thesis
    using onTileClick_cases [OF assms(1), of index now1 now2] by auto
next
  case (Shuffle rnd)
  moreover have "2 \<le> size_f g" using assms(1) by (simp add: state_inv_def)
  ultimately show ?thesis
    using assms(2) newGame_result [of "size_f g" rnd] by (auto simp: onShuffle_def)
next
  case (Resize sz rnd)
  then show ?thesis using assms(2) newGame_result [of sz rnd] by auto
qed

lemma click_enters_solved:
  assumes "state_inv g" "onTileClick g index now1 now2 = Inr g'"
    and "finishedAt g = None" "finishedAt g' \<noteq> None"
  shows "index \<in> set (neighborsOf (indexOf (tiles g) 0) (size_f g))
       \<and> swap (tiles g) index (indexOf (tiles g) 0) = Inr (tiles g')
       \<and> isSolved (tiles g')"
proof -
  have "g' \<noteq> g" using assms(3,4) by auto
  then have "onTileClick g index now1 now2 \<noteq> Inr g" using assms(2) by simp
  with onTileClick_cases [OF assms(1), of index now1 now2] obtain nxt where
    k: "index \<in> set (neighborsOf (indexOf (tiles g) 0) (size_f g))"
    and sw: "swap (tiles g) index (indexOf (tiles g) 0) = Inr nxt"
    and r: "onTileClick g index now1 now2 =
              Inr (g\<lparr>tiles := nxt, moves := moves g + 1,
                     startedAt := Some (nullish (startedAt g) now1),
                     finishedAt := (if isSolved nxt then Some now2 else None)\<rparr>)"
    by blast
  have g': "g' = g\<lparr>tiles := nxt, moves := moves g + 1,
                     startedAt := Some (nullish (startedAt g) now1),
                     finishedAt := (if isSolved nxt then Some now2 else None)\<rparr>"
    using r assms(2) by simp
  then have "tiles g' = nxt" by simp
  moreover have "isSolved nxt" using assms(4) g' by (simp split: if_splits)
  ultimately show ?thesis using k sw by simp
qed

lemma newGame_example:
  "newGame 3 (\<lambda>i. 0) =
     Inr \<lparr>tiles = [1, 2, 0, 4, 5, 3, 7, 8, 6], size_f = 3, moves = 0,
           startedAt = None, finishedAt = None\<rparr>"
proof -
  have "shuffleSolvable 3 300 (\<lambda>i. 0) = Inr [1, 2, 0, 4, 5, 3, 7, 8, 6]"
    by code_simp
  then show ?thesis by (simp add: newGame_def)
qed

lemmas click_eval =
  onTileClick_def neighborsOf_def indexToRC_def rcToIndex_def signed_modulo_int_def
  swap_def get_at_def isSolved_def isSolved_loop.simps truthy_def nullish_def

lemma reachable_mount_example:
  "reachable \<lparr>tiles = [1, 2, 0, 4, 5, 3, 7, 8, 6], size_f = 3, moves = 0,
               startedAt = None, finishedAt = None\<rparr>"
  by (rule reachable.mount [OF _ _ newGame_example]) (simp_all add: unit_interval_def)

lemma reachable_example:
  "reachable \<lparr>tiles = [1, 2, 3, 4, 5, 6, 7, 8, 0], size_f = 3, moves = 2,
               startedAt = Some t1, finishedAt = Some t2\<rparr>"
proof -
  have "step \<lparr>tiles = [1, 2, 0, 4, 5, 3, 7, 8, 6], size_f = 3, moves = 0,
           startedAt = None, finishedAt = None\<rparr> (TileClick 5 t1 t1)
       = Inr \<lparr>tiles = [1, 2, 3, 4, 5, 0, 7, 8, 6], size_f = 3, moves = 1,
           startedAt = Some t1, finishedAt = None\<rparr>"
    by (simp add: click_eval)
  then have r: "reachable \<lparr>tiles = [1, 2, 3, 4, 5, 0, 7, 8, 6], size_f = 3, moves = 1,
           startedAt = Some t1, finishedAt = None\<rparr>"
    by (rule reachable.step [OF reachable_mount_example, rotated]) simp
  have "step \<lparr>tiles = [1, 2, 3, 4, 5, 0, 7, 8, 6], size_f = 3, moves = 1,
           startedAt = Some t1, finishedAt = None\<rparr> (TileClick 8 t2 t2)
       = Inr \<lparr>tiles = [1, 2, 3, 4, 5, 6, 7, 8, 0], size_f = 3, moves = 2,
           startedAt = Some t1, finishedAt = Some t2\<rparr>"
    by (simp add: click_eval)
  then show ?thesis
    by (rule reachable.step [OF r, rotated]) simp
qed

text \<open>
  C1. Every reachable state of the controller (the state of the mount, and every
  state an event produces from a reachable state) has \<open>finishedAt\<close> defined exactly
  when \<open>isSolved\<close> holds of its board. Every event yields a next state. A click can
  turn a state with \<open>finishedAt\<close> undefined into one with \<open>finishedAt\<close> defined
  only if the index is a neighbour of the empty cell and the board after the swap
  is solved; a shuffle and a change of size give a state with \<open>finishedAt\<close>
  undefined and an unsolved board.
\<close>

theorem reachable_finished_iff_solved:
  assumes "reachable g"
  shows "(finishedAt g \<noteq> None \<longleftrightarrow> isSolved (tiles g))
       \<and> (\<forall>a. admissible a \<longrightarrow>
            (\<exists>g'. step g a = Inr g'
               \<and> (case a of
                     TileClick index now1 now2 \<Rightarrow>
                       (finishedAt g = None \<and> finishedAt g' \<noteq> None \<longrightarrow>
                          index \<in> set (neighborsOf (indexOf (tiles g) 0) (size_f g))
                          \<and> swap (tiles g) index (indexOf (tiles g) 0) = Inr (tiles g')
                          \<and> isSolved (tiles g'))
                   | Shuffle rnd \<Rightarrow>
                       finishedAt g' = None \<and> \<not> isSolved (tiles g') \<and> size_f g' = size_f g
                   | Resize sz rnd \<Rightarrow>
                       finishedAt g' = None \<and> \<not> isSolved (tiles g') \<and> size_f g' = sz)))"
proof -
  have inv: "state_inv g" using assms by (rule reachable_inv)
  have "\<exists>g'. step g a = Inr g'
          \<and> (case a of
                TileClick index now1 now2 \<Rightarrow>
                  (finishedAt g = None \<and> finishedAt g' \<noteq> None \<longrightarrow>
                     index \<in> set (neighborsOf (indexOf (tiles g) 0) (size_f g))
                     \<and> swap (tiles g) index (indexOf (tiles g) 0) = Inr (tiles g')
                     \<and> isSolved (tiles g'))
              | Shuffle rnd \<Rightarrow>
                  finishedAt g' = None \<and> \<not> isSolved (tiles g') \<and> size_f g' = size_f g
              | Resize sz rnd \<Rightarrow>
                  finishedAt g' = None \<and> \<not> isSolved (tiles g') \<and> size_f g' = sz)"
    if a: "admissible a" for a
  proof -
    from step_total [OF inv a] obtain g' where s: "step g a = Inr g'" by blast
    show ?thesis
    proof (cases a)
      case (TileClick index now1 now2)
      then have "onTileClick g index now1 now2 = Inr g'" using s by simp
      from click_enters_solved [OF inv this] show ?thesis
        using s TileClick by auto
    next
      case (Shuffle rnd)
      have sz: "2 \<le> size_f g" using inv by (simp add: state_inv_def)
      have u: "unit_interval rnd" using a Shuffle by simp
      from newGame_result [OF sz u] show ?thesis
        using Shuffle by (auto simp: onShuffle_def)
    next
      case (Resize sz rnd)
      then have "2 \<le> sz" "unit_interval rnd" using a by simp_all
      from newGame_result [OF this] show ?thesis
        using Resize by auto
    qed
  qed
  moreover have "finishedAt g \<noteq> None \<longleftrightarrow> isSolved (tiles g)"
    using inv by (simp add: state_inv_def)
  ultimately show ?thesis by blast
qed

theorem reachable_finished_iff_solved_witness:
  "reachable \<lparr>tiles = [1, 2, 3, 4, 5, 6, 7, 8, 0], size_f = 3, moves = 2,
               startedAt = Some 1000, finishedAt = Some 2000\<rparr>
   \<and> isSolved [1, 2, 3, 4, 5, 6, 7, 8, 0]
   \<and> reachable \<lparr>tiles = [1, 2, 0, 4, 5, 3, 7, 8, 6], size_f = 3, moves = 0,
               startedAt = None, finishedAt = None\<rparr>
   \<and> \<not> isSolved [1, 2, 0, 4, 5, 3, 7, 8, 6]"
proof -
  have r1: "reachable \<lparr>tiles = [1, 2, 3, 4, 5, 6, 7, 8, 0], size_f = 3, moves = 2,
               startedAt = Some 1000, finishedAt = Some 2000\<rparr>"
    by (rule reachable_example)
  have r2: "reachable \<lparr>tiles = [1, 2, 0, 4, 5, 3, 7, 8, 6], size_f = 3, moves = 0,
           startedAt = None, finishedAt = None\<rparr>"
    by (rule reachable_mount_example)
  show ?thesis
    using r1 r2 reachable_finished_iff_solved [OF r1] reachable_finished_iff_solved [OF r2]
    by simp
qed

section \<open>Ignored clicks\<close>

lemma running_reachable: "running g \<Longrightarrow> reachable g"
proof (induction rule: running.induct)
  case (mount sz rnd g)
  then show ?case by (rule reachable.mount)
next
  case (step g a g')
  then show ?case using reachable.step by blast
qed

lemma newGame_timestamps:
  "newGame sz rnd = Inr g \<Longrightarrow> startedAt g = None \<and> finishedAt g = None"
  by (auto simp: newGame_def split: sum.splits)

lemma onTileClick_timestamps:
  assumes "onTileClick g index now1 now2 = Inr g'" "now1 \<noteq> 0" "now2 \<noteq> 0"
    and "startedAt g \<noteq> Some 0" "finishedAt g \<noteq> Some 0"
  shows "startedAt g' \<noteq> Some 0 \<and> finishedAt g' \<noteq> Some 0"
  using assms
  by (auto simp: onTileClick_def Let_def nullish_def split: if_splits sum.splits option.splits)

lemma running_timestamps:
  "running g \<Longrightarrow> startedAt g \<noteq> Some 0 \<and> finishedAt g \<noteq> Some 0"
proof (induction rule: running.induct)
  case (mount sz rnd g)
  then show ?case using newGame_timestamps by fastforce
next
  case (step g a g')
  show ?case
  proof (cases a)
    case (TileClick index now1 now2)
    then show ?thesis
      using step onTileClick_timestamps [of g index now1 now2 g'] by simp
  next
    case (Shuffle rnd)
    then show ?thesis
      using step.hyps newGame_timestamps [of "size_f g" rnd g'] by (simp add: onShuffle_def)
  next
    case (Resize sz rnd)
    then show ?thesis
      using step.hyps newGame_timestamps [of sz rnd g'] by simp
  qed
qed

lemma running_mount_example:
  "running \<lparr>tiles = [1, 2, 0, 4, 5, 3, 7, 8, 6], size_f = 3, moves = 0,
             startedAt = None, finishedAt = None\<rparr>"
  by (rule running.mount [OF _ _ newGame_example]) (simp_all add: unit_interval_def)

lemma running_first_click:
  assumes "t1 \<noteq> 0"
  shows "running \<lparr>tiles = [1, 2, 3, 4, 5, 0, 7, 8, 6], size_f = 3, moves = 1,
                   startedAt = Some t1, finishedAt = None\<rparr>"
proof -
  have eq: "step \<lparr>tiles = [1, 2, 0, 4, 5, 3, 7, 8, 6], size_f = 3, moves = 0,
           startedAt = None, finishedAt = None\<rparr> (TileClick 5 t1 t1)
       = Inr \<lparr>tiles = [1, 2, 3, 4, 5, 0, 7, 8, 6], size_f = 3, moves = 1,
           startedAt = Some t1, finishedAt = None\<rparr>"
    by (simp add: click_eval)
  show ?thesis
    by (rule running.step [OF running_mount_example _ _ eq]) (simp_all add: assms)
qed

lemma running_solved_example:
  assumes "t1 \<noteq> 0" "t2 \<noteq> 0"
  shows "running \<lparr>tiles = [1, 2, 3, 4, 5, 6, 7, 8, 0], size_f = 3, moves = 2,
                   startedAt = Some t1, finishedAt = Some t2\<rparr>"
proof -
  have eq: "step \<lparr>tiles = [1, 2, 3, 4, 5, 0, 7, 8, 6], size_f = 3, moves = 1,
           startedAt = Some t1, finishedAt = None\<rparr> (TileClick 8 t2 t2)
       = Inr \<lparr>tiles = [1, 2, 3, 4, 5, 6, 7, 8, 0], size_f = 3, moves = 2,
           startedAt = Some t1, finishedAt = Some t2\<rparr>"
    by (simp add: click_eval)
  show ?thesis
    by (rule running.step [OF running_first_click [OF assms(1)] _ _ eq])
      (simp_all add: assms(2))
qed

text \<open>
  The guard \<open>if (game.finishedAt) return\<close> tests truthiness, so it lets a click
  through when \<open>finishedAt\<close> is the timestamp 0. No running state has that
  timestamp (\<open>running_timestamps\<close>); this is why the states of the theorem below are
  the running ones, or any state whose \<open>finishedAt\<close> is not 0.
\<close>

lemma onTileClick_timestamp_zero:
  "onTileClick \<lparr>tiles = [1, 2, 3, 4, 5, 6, 7, 8, 0], size_f = 3, moves = 2,
                 startedAt = Some 0, finishedAt = Some 0\<rparr> 7 5 5
     = Inr \<lparr>tiles = [1, 2, 3, 4, 5, 6, 7, 0, 8], size_f = 3, moves = 3,
             startedAt = Some 0, finishedAt = None\<rparr>"
  by (simp add: click_eval)

text \<open>
  C5. In every state the running program reaches (and in every state whose
  \<open>finishedAt\<close> is not the timestamp 0), a click when the state is solved
  (\<open>finishedAt\<close> set), or on an index that \<open>neighborsOf\<close> does not list for the
  position of the empty cell, returns the state itself: board, moves, \<open>startedAt\<close>,
  \<open>finishedAt\<close> and size are unchanged, and the result is a state, not a fault.
\<close>

theorem onTileClick_ignored:
  assumes "running game \<or> finishedAt game \<noteq> Some 0"
    and "finishedAt game \<noteq> None
       \<or> index \<notin> set (neighborsOf (indexOf (tiles game) 0) (size_f game))"
  shows "onTileClick game index now1 now2 = Inr game"
proof -
  have "finishedAt game \<noteq> Some 0"
    using assms(1) running_timestamps by blast
  then have "finishedAt game \<noteq> None \<longrightarrow> truthy (finishedAt game)"
    by (auto simp: truthy_def split: option.splits)
  then show ?thesis
    using assms(2) by (intro onTileClick_noop) blast
qed

theorem onTileClick_ignored_witness:
  "onTileClick \<lparr>tiles = [1, 2, 3, 4, 5, 6, 7, 8, 0], size_f = 3, moves = 2,
                 startedAt = Some 1000, finishedAt = Some 2000\<rparr> 7 3000 3000
     = Inr \<lparr>tiles = [1, 2, 3, 4, 5, 6, 7, 8, 0], size_f = 3, moves = 2,
             startedAt = Some 1000, finishedAt = Some 2000\<rparr>
   \<and> 7 \<in> set (neighborsOf (indexOf [1, 2, 3, 4, 5, 6, 7, 8, 0] 0) 3)
   \<and> onTileClick \<lparr>tiles = [1, 2, 3, 4, 5, 6, 7, 0, 8], size_f = 3, moves = 0,
                 startedAt = None, finishedAt = None\<rparr> 0 3000 3000
     = Inr \<lparr>tiles = [1, 2, 3, 4, 5, 6, 7, 0, 8], size_f = 3, moves = 0,
             startedAt = None, finishedAt = None\<rparr>
   \<and> 0 \<notin> set (neighborsOf (indexOf [1, 2, 3, 4, 5, 6, 7, 0, 8] 0) 3)"
proof -
  have r: "running \<lparr>tiles = [1, 2, 3, 4, 5, 6, 7, 8, 0], size_f = 3, moves = 2,
                 startedAt = Some 1000, finishedAt = Some 2000\<rparr>"
    by (rule running_solved_example) simp_all
  have n1: "neighborsOf 8 3 = [5, 7]"
    by (simp add: neighborsOf_def indexToRC_def rcToIndex_def signed_modulo_int_def)
  have n2: "neighborsOf 7 3 = [4, 6, 8]"
    by (simp add: neighborsOf_def indexToRC_def rcToIndex_def signed_modulo_int_def)
  have a: "onTileClick \<lparr>tiles = [1, 2, 3, 4, 5, 6, 7, 8, 0], size_f = 3, moves = 2,
                 startedAt = Some 1000, finishedAt = Some 2000\<rparr> 7 3000 3000
     = Inr \<lparr>tiles = [1, 2, 3, 4, 5, 6, 7, 8, 0], size_f = 3, moves = 2,
             startedAt = Some 1000, finishedAt = Some 2000\<rparr>"
    by (rule onTileClick_ignored) (use r in simp_all)
  have b: "onTileClick \<lparr>tiles = [1, 2, 3, 4, 5, 6, 7, 0, 8], size_f = 3, moves = 0,
                 startedAt = None, finishedAt = None\<rparr> 0 3000 3000
     = Inr \<lparr>tiles = [1, 2, 3, 4, 5, 6, 7, 0, 8], size_f = 3, moves = 0,
             startedAt = None, finishedAt = None\<rparr>"
    by (rule onTileClick_ignored) (simp_all add: n2)
  show ?thesis using a b by (simp add: n1 n2)
qed

section \<open>Elapsed time\<close>

lemma seconds_callback_value:
  "(startedAt game = None \<longrightarrow> seconds_callback game now = 0)
   \<and> (\<forall>s. startedAt game = Some s \<and> s \<noteq> 0 \<longrightarrow>
          seconds_callback game now =
            ((case finishedAt game of None \<Rightarrow> now | Some f \<Rightarrow> f) - s) div 1000)
   \<and> (\<forall>s f. startedAt game = Some s \<and> s \<noteq> 0 \<and> finishedAt game = Some f \<and> f \<le> now \<longrightarrow>
          seconds_callback game now = (min f now - s) div 1000)
   \<and> (finishedAt game \<noteq> None \<longrightarrow> seconds_callback game now = seconds_callback game now')"
  by (auto simp: seconds_callback_def truthy_def nullish_def split: option.splits)

lemma seconds_callback_at_new_game:
  "newGame sz rnd = Inr g \<Longrightarrow> seconds_callback g now = 0"
  by (auto simp: newGame_def seconds_callback_def truthy_def split: sum.splits)

lemma seconds_first_render:
  "seconds None game now = (seconds_callback game now, Some (seconds_callback game now))"
  by (simp add: seconds_def useMemo_no_deps_def Let_def)

lemma seconds_later_render: "seconds (Some v) game now = (v, Some v)"
  by (simp add: seconds_def useMemo_no_deps_def)

lemma renders_cached: "renders (Some v) rs = replicate (length rs) v"
  by (induction rs) (auto simp: seconds_later_render)

text \<open>
  The first render of the component is on the state of the mount, where
  \<open>startedAt\<close> is undefined: the cell holds 0 from then on, and every render shows 0.
\<close>

lemma renders_from_mount:
  assumes "newGame sz rnd = Inr g0"
  shows "renders None ((g0, t0) # rs) = replicate (Suc (length rs)) 0"
  using seconds_callback_at_new_game [OF assms]
  by (simp add: seconds_first_render renders_cached)

text \<open>
  C6. The specification: for every state and every time, the elapsed seconds are 0
  while \<open>startedAt\<close> is unset and \<open>floor((min(endTime, now) - startTime) / 1000)\<close>
  afterwards. The component does not show that. Below, the first render is on the
  state of the mount at time 500; the first click comes at time 1000, and the
  state it gives is reached by the running program. In the render of that state
  at time 4500 the callback would give \<open>floor((4500 - 1000) / 1000) = 3\<close>, but it
  is not called: \<open>seconds\<close> is the value stored at the mount, 0.
\<close>

theorem seconds_stays_at_mount_value:
  "newGame 3 (\<lambda>i. 0) =
     Inr \<lparr>tiles = [1, 2, 0, 4, 5, 3, 7, 8, 6], size_f = 3, moves = 0,
           startedAt = None, finishedAt = None\<rparr>
   \<and> renders None
     [(\<lparr>tiles = [1, 2, 0, 4, 5, 3, 7, 8, 6], size_f = 3, moves = 0,
         startedAt = None, finishedAt = None\<rparr>, 500),
      (\<lparr>tiles = [1, 2, 3, 4, 5, 0, 7, 8, 6], size_f = 3, moves = 1,
         startedAt = Some 1000, finishedAt = None\<rparr>, 4500)] = [0, 0]
   \<and> running \<lparr>tiles = [1, 2, 3, 4, 5, 0, 7, 8, 6], size_f = 3, moves = 1,
                startedAt = Some 1000, finishedAt = None\<rparr>
   \<and> seconds_callback \<lparr>tiles = [1, 2, 3, 4, 5, 0, 7, 8, 6], size_f = 3, moves = 1,
                         startedAt = Some 1000, finishedAt = None\<rparr> 4500 = 3
   \<and> (min 4500 4500 - 1000) div 1000 = (3::int)"
proof -
  have "running \<lparr>tiles = [1, 2, 3, 4, 5, 0, 7, 8, 6], size_f = 3, moves = 1,
                startedAt = Some 1000, finishedAt = None\<rparr>"
    by (rule running_first_click) simp
  then show ?thesis
    using newGame_example
    by (simp add: seconds_def useMemo_no_deps_def Let_def seconds_callback_def truthy_def
        nullish_def)
qed

end
